theory Spec2Isabelle
  imports Complex_Main
begin

section \<open>NEAT genomes of nevopy: data model\<close>

text \<open>
  The development follows \<^verbatim>\<open>src/nevopy/neat/genome.py\<close> and
  \<^verbatim>\<open>src/nevopy/neat/id_handler.py\<close>. Python objects that are shared by reference
  (node genes, connection genes) live in explicit stores: a genome owns a list of node
  objects (\<open>node_heap\<close>) and the list \<open>connections\<close>; a reference to a node is its
  position in \<open>node_heap\<close>, a reference to a connection is its position in
  \<open>connections\<close> (the source only ever appends to that list, so positions are stable).
  Python floats are idealised as \<open>real\<close>; Python ints are \<open>int\<close>.
\<close>

datatype error =
    ConnectionExistsError
  | ConnectionToBiasNodeError
  | AssertionError
  | KeyError
  | ValueError
  | ZeroDivisionError
  | RuntimeError
  | AttributeError
  | TypeError

subsection \<open>The ID handler (\<^verbatim>\<open>id_handler.py\<close>)\<close>

record id_handler =
  node_counter :: int
  connection_counter :: int
  genome_counter :: int
  species_counter :: int
  new_connections_ids :: "int \<rightharpoonup> (int \<rightharpoonup> int)"
  new_nodes_ids :: "int \<rightharpoonup> (int \<rightharpoonup> int)"
  reset_counter :: int

text \<open>
  \<^verbatim>\<open>IdHandler.__init__\<close>. The source line is
  \<^verbatim>\<open>self._node_counter = num_inputs + num_outputs + 1 if has_bias else 0\<close>;
  Python's conditional expression binds weaker than \<^verbatim>\<open>+\<close>, so the whole sum is
  the first branch.
\<close>

definition IdHandler :: "int \<Rightarrow> int \<Rightarrow> bool \<Rightarrow> id_handler" where
  "IdHandler num_inputs num_outputs has_bias =
     \<lparr> node_counter = (if has_bias then num_inputs + num_outputs + 1 else 0),
       connection_counter = num_inputs * num_outputs,
       genome_counter = 0,
       species_counter = 0,
       new_connections_ids = Map.empty,
       new_nodes_ids = Map.empty,
       reset_counter = 0 \<rparr>"

definition reset :: "id_handler \<Rightarrow> id_handler" where
  "reset h = h\<lparr> new_connections_ids := Map.empty, new_nodes_ids := Map.empty,
                reset_counter := 0 \<rparr>"

definition next_genome_id :: "id_handler \<Rightarrow> int \<times> id_handler" where
  "next_genome_id h = (genome_counter h, h\<lparr> genome_counter := genome_counter h + 1 \<rparr>)"

definition next_species_id :: "id_handler \<Rightarrow> int \<times> id_handler" where
  "next_species_id h = (species_counter h, h\<lparr> species_counter := species_counter h + 1 \<rparr>)"

text \<open>
  \<^verbatim>\<open>next_hidden_node_id\<close>: the two-level dictionary is a map of maps. A missing
  first-level entry is created (empty) before the fresh id is stored.
\<close>

definition next_hidden_node_id ::
  "int option \<Rightarrow> int option \<Rightarrow> id_handler \<Rightarrow> error + (int \<times> id_handler)" where
  "next_hidden_node_id src_id dest_id h =
     (case (src_id, dest_id) of
        (Some s, Some d) \<Rightarrow>
          (case new_nodes_ids h s of
             Some inner \<Rightarrow>
               (case inner d of
                  Some hid \<Rightarrow> Inr (hid, h)
                | None \<Rightarrow>
                    Inr (node_counter h,
                         h\<lparr> node_counter := node_counter h + 1,
                            new_nodes_ids := (new_nodes_ids h)(s \<mapsto> inner(d \<mapsto> node_counter h)) \<rparr>))
           | None \<Rightarrow>
               Inr (node_counter h,
                    h\<lparr> node_counter := node_counter h + 1,
                       new_nodes_ids := (new_nodes_ids h)(s \<mapsto> [d \<mapsto> node_counter h]) \<rparr>))
      | _ \<Rightarrow> Inl RuntimeError)"

definition next_connection_id :: "int \<Rightarrow> int \<Rightarrow> id_handler \<Rightarrow> int \<times> id_handler" where
  "next_connection_id src_id dest_id h =
     (case new_connections_ids h src_id of
        Some inner \<Rightarrow>
          (case inner dest_id of
             Some cid \<Rightarrow> (cid, h)
           | None \<Rightarrow>
               (connection_counter h,
                h\<lparr> connection_counter := connection_counter h + 1,
                   new_connections_ids :=
                     (new_connections_ids h)(src_id \<mapsto> inner(dest_id \<mapsto> connection_counter h)) \<rparr>))
      | None \<Rightarrow>
          (connection_counter h,
           h\<lparr> connection_counter := connection_counter h + 1,
              new_connections_ids :=
                (new_connections_ids h)(src_id \<mapsto> [dest_id \<mapsto> connection_counter h]) \<rparr>))"


subsection \<open>The random source\<close>

text \<open>
  The source draws from numpy's global generator. The generator is an explicit state
  here: a tape of samples from \<open>[0, 1)\<close>, a tape of picks, and a position that every
  draw advances. A statement quantified over the tapes holds for every outcome of the
  draws.
\<close>

record rng =
  samples :: "nat \<Rightarrow> real"
  picks :: "nat \<Rightarrow> nat"
  rng_pos :: nat

text \<open>\<^verbatim>\<open>np.random.uniform(low, high)\<close>.\<close>

definition random_uniform :: "real \<Rightarrow> real \<Rightarrow> rng \<Rightarrow> real \<times> rng" where
  "random_uniform low high r =
     (low + (high - low) * samples r (rng_pos r), r\<lparr> rng_pos := Suc (rng_pos r) \<rparr>)"

text \<open>
  \<^verbatim>\<open>np.random.choice(seq)\<close> for a sequence of \<open>n > 0\<close> items: the position of the
  item drawn. (On an empty sequence numpy raises \<^verbatim>\<open>ValueError\<close>; the callers below
  test for that before they draw.)
\<close>

definition random_choice :: "nat \<Rightarrow> rng \<Rightarrow> nat \<times> rng" where
  "random_choice n r = (picks r (rng_pos r) mod n, r\<lparr> rng_pos := Suc (rng_pos r) \<rparr>)"

text \<open>
  Modelled from the spec: \<^verbatim>\<open>nevopy.utils.chance\<close> is not among the sources. The spec
  calls its argument a configured probability: the call is true with probability \<open>p\<close>,
  that is when a uniform sample from \<open>[0, 1)\<close> is below \<open>p\<close>.
\<close>

definition chance :: "real \<Rightarrow> rng \<Rightarrow> bool \<times> rng" where
  "chance p r = (case random_uniform 0 1 r of (u, r') \<Rightarrow> (u < p, r'))"

subsection \<open>Node and connection genes\<close>

datatype NodeType = INPUT | HIDDEN | OUTPUT | BIAS

text \<open>
  Modelled from the spec: \<^verbatim>\<open>nevopy/neat/genes.py\<close> (the classes \<^verbatim>\<open>NodeGene\<close> and
  \<^verbatim>\<open>ConnectionGene\<close>, and the functions \<^verbatim>\<open>connection_exists\<close> and
  \<^verbatim>\<open>align_connections\<close>) is not among the sources. A node gene has an identifier,
  a type, an activation function, an initial and a current activation value, and the
  lists of its incoming and outgoing connection genes; \<open>activate\<close> applies the
  activation function to the given sum and stores the result; \<open>shallow_copy\<close> keeps
  identifier, type, activation function and initial value and starts with empty
  connection lists.
\<close>

record node_gene =
  node_id :: int
  node_type :: NodeType
  activation_func :: "real \<Rightarrow> real"
  initial_activation :: real
  activation :: real
  in_connections :: "nat list"
  out_connections :: "nat list"

definition NodeGene :: "int \<Rightarrow> NodeType \<Rightarrow> (real \<Rightarrow> real) \<Rightarrow> real \<Rightarrow> node_gene" where
  "NodeGene i t f a =
     \<lparr> node_id = i, node_type = t, activation_func = f, initial_activation = a,
       activation = a, in_connections = [], out_connections = [] \<rparr>"

definition activate :: "node_gene \<Rightarrow> real \<Rightarrow> node_gene" where
  "activate n x = n\<lparr> activation := activation_func n x \<rparr>"

definition shallow_copy_node :: "node_gene \<Rightarrow> node_gene" where
  "shallow_copy_node n =
     NodeGene (node_id n) (node_type n) (activation_func n) (initial_activation n)"

text \<open>
  Modelled from the spec: \<^verbatim>\<open>nevopy.activations.linear\<close> is not among the sources; the
  spec names it the identity.
\<close>

definition linear :: "real \<Rightarrow> real" where
  "linear x = x"

text \<open>
  Modelled from the spec: a connection gene has an innovation identifier, a source and a
  destination node (references into the owning genome's \<open>node_heap\<close>), a weight and an
  enabled flag.
\<close>

record connection_gene =
  conn_id :: int
  from_node :: nat
  to_node :: nat
  weight :: real
  enabled :: bool

definition ConnectionGene :: "int \<Rightarrow> nat \<Rightarrow> nat \<Rightarrow> real \<Rightarrow> connection_gene" where
  "ConnectionGene inov_id src dest w =
     \<lparr> conn_id = inov_id, from_node = src, to_node = dest, weight = w, enabled = True \<rparr>"

subsection \<open>Configuration and genomes\<close>

text \<open>The options of the configuration object that \<^verbatim>\<open>genome.py\<close> reads.\<close>

record config =
  bias_value :: "real option"
  out_nodes_activation :: "real \<Rightarrow> real"
  hidden_nodes_activation :: "real \<Rightarrow> real"
  initial_node_activation :: real
  new_weight_interval :: "real \<times> real"
  weight_reset_chance :: real
  weight_perturbation_pc :: real
  excess_genes_coefficient :: real
  disjoint_genes_coefficient :: real
  weight_difference_coefficient :: real
  disable_inherited_connection_chance :: real
  allow_self_connections :: bool

record genome =
  genome_id :: int
  species_id :: "int option"
  fitness :: real
  adj_fitness :: real
  node_heap :: "node_gene list"
  input_nodes :: "nat list"
  hidden_nodes :: "nat list"
  output_nodes :: "nat list"
  bias_node :: "nat option"
  connections :: "connection_gene list"
  config :: config
  output_activation :: "real \<Rightarrow> real"
  hidden_activation :: "real \<Rightarrow> real"
  activated_nodes :: "(int \<rightharpoonup> bool) option"

text \<open>\<^verbatim>\<open>Genome.nodes\<close>: inputs, bias, outputs and hidden nodes, in this order.\<close>

definition nodes :: "genome \<Rightarrow> nat list" where
  "nodes g =
     input_nodes g @ (case bias_node g of Some b \<Rightarrow> [b] | None \<Rightarrow> []) @
     output_nodes g @ hidden_nodes g"

text \<open>The id and the type of the node object behind a reference.\<close>

definition id_of :: "genome \<Rightarrow> nat \<Rightarrow> int" where
  "id_of g n = node_id (node_heap g ! n)"

definition type_of :: "genome \<Rightarrow> nat \<Rightarrow> NodeType" where
  "type_of g n = node_type (node_heap g ! n)"

text \<open>
  Modelled from the spec: \<^verbatim>\<open>connection_exists(src, dest)\<close> scans the outgoing
  connections of \<open>src\<close> for a matching destination. Destinations are matched by node
  identifier: \<^verbatim>\<open>add_connection\<close> reports the conflict as the pair of identifiers,
  and \<^verbatim>\<open>add_random_hidden_node\<close> expects the conflict for a node object it has just
  created.
\<close>

definition connection_exists :: "genome \<Rightarrow> nat \<Rightarrow> nat \<Rightarrow> bool" where
  "connection_exists g src dest =
     list_ex (\<lambda>k. id_of g (to_node (connections g ! k)) = id_of g dest)
       (out_connections (node_heap g ! src))"

subsection \<open>\<^verbatim>\<open>Genome.add_connection\<close>\<close>

text \<open>
  The result is the exception raised, if any, with the state the call leaves behind: the
  genome, the ID handler and the random source. The two checks come before any
  assignment. The debugging output under \<^verbatim>\<open>delme\<close> changes no state and is left out.
\<close>

definition add_connection ::
  "genome \<Rightarrow> id_handler \<Rightarrow> rng \<Rightarrow> nat \<Rightarrow> nat \<Rightarrow> bool \<Rightarrow> int option \<Rightarrow> real option \<Rightarrow>
   error option \<times> genome \<times> id_handler \<times> rng" where
  "add_connection g h r src_node dest_node en cid w =
     (if connection_exists g src_node dest_node then (Some ConnectionExistsError, g, h, r)
      else if type_of g dest_node = BIAS \<or> type_of g dest_node = INPUT
        then (Some ConnectionToBiasNodeError, g, h, r)
      else
        (case (case cid of
                 None \<Rightarrow> next_connection_id (id_of g src_node) (id_of g dest_node) h
               | Some c \<Rightarrow> (c, h)) of
           (inov_id, h') \<Rightarrow>
        (case (case w of
                 None \<Rightarrow> random_uniform (fst (new_weight_interval (config g)))
                           (snd (new_weight_interval (config g))) r
               | Some x \<Rightarrow> (x, r)) of
           (x, r') \<Rightarrow>
             let connection = (ConnectionGene inov_id src_node dest_node x)\<lparr> enabled := en \<rparr>;
                 k = length (connections g);
                 heap1 = (node_heap g)[src_node :=
                           (node_heap g ! src_node)\<lparr> out_connections :=
                              out_connections (node_heap g ! src_node) @ [k] \<rparr>];
                 heap2 = heap1[dest_node :=
                           (heap1 ! dest_node)\<lparr> in_connections :=
                              in_connections (heap1 ! dest_node) @ [k] \<rparr>]
             in (None, g\<lparr> connections := connections g @ [connection], node_heap := heap2 \<rparr>,
                 h', r'))))"

subsection \<open>\<^verbatim>\<open>Genome.__init__\<close>\<close>

definition new_node :: "genome \<Rightarrow> node_gene \<Rightarrow> nat \<times> genome" where
  "new_node g n = (length (node_heap g), g\<lparr> node_heap := node_heap g @ [n] \<rparr>)"

fun init_input_nodes :: "nat \<Rightarrow> genome \<times> int \<Rightarrow> genome \<times> int" where
  "init_input_nodes 0 s = s"
| "init_input_nodes (Suc k) (g, counter) =
     (case new_node g (NodeGene counter INPUT linear (initial_node_activation (config g))) of
        (n, g') \<Rightarrow>
          init_input_nodes k (g'\<lparr> input_nodes := input_nodes g' @ [n] \<rparr>, counter + 1))"

fun connect_inputs ::
  "nat list \<Rightarrow> nat \<Rightarrow> genome \<times> id_handler \<times> rng \<Rightarrow> error + genome \<times> id_handler \<times> rng" where
  "connect_inputs [] out_node s = Inr s"
| "connect_inputs (in_node # ins) out_node (g, h, r) =
     (case add_connection g h r in_node out_node True None None of
        (Some e, _) \<Rightarrow> Inl e
      | (None, s') \<Rightarrow> connect_inputs ins out_node s')"

fun init_output_nodes ::
  "nat \<Rightarrow> bool \<Rightarrow> genome \<times> int \<times> id_handler \<times> rng \<Rightarrow> error + genome \<times> int \<times> id_handler \<times> rng" where
  "init_output_nodes 0 ic s = Inr s"
| "init_output_nodes (Suc k) ic (g, counter, h, r) =
     (case new_node g (NodeGene counter OUTPUT (output_activation g)
                         (initial_node_activation (config g))) of
        (out_node, g') \<Rightarrow>
          let g'' = g'\<lparr> output_nodes := output_nodes g' @ [out_node] \<rparr> in
          if ic then
            (case connect_inputs (input_nodes g'') out_node (g'', h, r) of
               Inl e \<Rightarrow> Inl e
             | Inr (g3, h', r') \<Rightarrow> init_output_nodes k ic (g3, counter + 1, h', r'))
          else init_output_nodes k ic (g'', counter + 1, h, r))"

text \<open>
  The constructor. \<^verbatim>\<open>genome.py\<close> calls the handler's methods \<^verbatim>\<open>genome_id\<close>,
  \<^verbatim>\<open>connection_id\<close> and \<^verbatim>\<open>hidden_node_id\<close>; \<^verbatim>\<open>id_handler.py\<close> declares them
  as \<^verbatim>\<open>next_genome_id\<close>, \<^verbatim>\<open>next_connection_id\<close> and
  \<^verbatim>\<open>next_hidden_node_id\<close>.
\<close>

definition Genome ::
  "int \<Rightarrow> int \<Rightarrow> id_handler \<Rightarrow> config \<Rightarrow> int option \<Rightarrow> bool \<Rightarrow> rng \<Rightarrow>
   error + genome \<times> id_handler \<times> rng" where
  "Genome num_inputs num_outputs h cfg gid initial_connections r =
     (case (case gid of Some i \<Rightarrow> (i, h) | None \<Rightarrow> next_genome_id h) of
        (i, h0) \<Rightarrow>
          let g0 = \<lparr> genome_id = i, species_id = None, fitness = 0, adj_fitness = 0,
                     node_heap = [], input_nodes = [], hidden_nodes = [], output_nodes = [],
                     bias_node = None, connections = [], config = cfg,
                     output_activation = out_nodes_activation cfg,
                     hidden_activation = hidden_nodes_activation cfg,
                     activated_nodes = None \<rparr> in
          (case init_input_nodes (nat num_inputs) (g0, 0) of
             (g1, c1) \<Rightarrow>
               (case (case bias_value cfg of
                        Some b \<Rightarrow>
                          (case new_node g1 (NodeGene c1 BIAS linear b) of
                             (n, g') \<Rightarrow> (g'\<lparr> bias_node := Some n \<rparr>, c1 + 1))
                      | None \<Rightarrow> (g1, c1)) of
                  (g2, c2) \<Rightarrow>
                    (case init_output_nodes (nat num_outputs) initial_connections (g2, c2, h0, r) of
                       Inl e \<Rightarrow> Inl e
                     | Inr (g3, _, h', r') \<Rightarrow> Inr (g3, h', r')))))"

text \<open>\<^verbatim>\<open>Genome.shallow_copy\<close>.\<close>

definition shallow_copy :: "genome \<Rightarrow> id_handler \<Rightarrow> rng \<Rightarrow> error + genome \<times> id_handler \<times> rng" where
  "shallow_copy g h r =
     Genome (int (length (input_nodes g))) (int (length (output_nodes g))) h (config g)
       None False r"

subsection \<open>Mutation operators\<close>

text \<open>
  \<^verbatim>\<open>Genome.add_random_hidden_node\<close>. The result is the reference of the new node, or
  the exception raised, with the state left behind. The connection to split is drawn
  from all connections; on an empty list \<^verbatim>\<open>np.random.choice\<close> raises
  \<^verbatim>\<open>ValueError\<close>.
\<close>

definition add_random_hidden_node ::
  "genome \<Rightarrow> id_handler \<Rightarrow> rng \<Rightarrow> (error + nat) \<times> genome \<times> id_handler \<times> rng" where
  "add_random_hidden_node g h r =
     (if connections g = [] then (Inl ValueError, g, h, r)
      else
        (case random_choice (length (connections g)) r of
           (i, r1) \<Rightarrow>
             let g1 = g\<lparr> connections := (connections g)[i := (connections g ! i)\<lparr> enabled := False \<rparr>] \<rparr>;
                 src_node = from_node (connections g1 ! i);
                 dest_node = to_node (connections g1 ! i)
             in
             (case next_hidden_node_id (Some (id_of g1 src_node)) (Some (id_of g1 dest_node)) h of
                Inl e \<Rightarrow> (Inl e, g1, h, r1)
              | Inr (hid, h1) \<Rightarrow>
                  (case new_node g1 (NodeGene hid HIDDEN (hidden_activation g1)
                                       (initial_node_activation (config g1))) of
                     (n, g2) \<Rightarrow>
                       let g3 = g2\<lparr> hidden_nodes := hidden_nodes g2 @ [n] \<rparr> in
                       (case add_connection g3 h1 r1 src_node n True None (Some 1) of
                          (Some e, s) \<Rightarrow> (Inl e, s)
                        | (None, g4, h2, r2) \<Rightarrow>
                            (case add_connection g4 h2 r2 n dest_node True None
                                    (Some (weight (connections g4 ! i))) of
                               (Some e, s) \<Rightarrow> (Inl e, s)
                             | (None, s) \<Rightarrow> (Inr n, s)))))))"

text \<open>\<^verbatim>\<open>Genome.mutate_weights\<close>: the loop body for the connection at position \<open>k\<close>.\<close>

definition mutate_weight :: "nat \<Rightarrow> genome \<times> rng \<Rightarrow> genome \<times> rng" where
  "mutate_weight k s =
     (case s of (g, r) \<Rightarrow>
        let connection = connections g ! k in
        (case chance (weight_reset_chance (config g)) r of
           (True, r1) \<Rightarrow>
             (case random_uniform (fst (new_weight_interval (config g)))
                     (snd (new_weight_interval (config g))) r1 of
                (x, r2) \<Rightarrow>
                  (g\<lparr> connections := (connections g)[k := connection\<lparr> weight := x \<rparr>] \<rparr>, r2))
         | (False, r1) \<Rightarrow>
             (case random_uniform (- weight_perturbation_pc (config g))
                     (weight_perturbation_pc (config g)) r1 of
                (u, r2) \<Rightarrow>
                  let d = weight connection * u in
                  (g\<lparr> connections := (connections g)[k := connection\<lparr> weight := weight connection + d \<rparr>] \<rparr>,
                   r2))))"

definition mutate_weights :: "genome \<Rightarrow> rng \<Rightarrow> genome \<times> rng" where
  "mutate_weights g r = fold mutate_weight [0 ..< length (connections g)] (g, r)"

subsection \<open>Gene alignment and \<^verbatim>\<open>Genome.distance\<close>\<close>

text \<open>
  Modelled from the spec: \<^verbatim>\<open>align_connections\<close> (in the absent \<^verbatim>\<open>genes.py\<close>) is a
  linear two-pointer merge by ascending identifier of two sequences that are each sorted
  by identifier; it returns two parallel sequences of equal length whose slots hold a
  connection gene or the absent marker, equal identifiers sharing a slot.
\<close>

fun align_slots ::
  "connection_gene list \<Rightarrow> connection_gene list \<Rightarrow>
   (connection_gene option \<times> connection_gene option) list" where
  "align_slots [] ys = map (\<lambda>y. (None, Some y)) ys"
| "align_slots (x # xs) [] = map (\<lambda>x. (Some x, None)) (x # xs)"
| "align_slots (x # xs) (y # ys) =
     (if conn_id x = conn_id y then (Some x, Some y) # align_slots xs ys
      else if conn_id x < conn_id y then (Some x, None) # align_slots xs (y # ys)
      else (None, Some y) # align_slots (x # xs) ys)"

definition align_connections ::
  "connection_gene list \<Rightarrow> connection_gene list \<Rightarrow>
   connection_gene option list \<times> connection_gene option list" where
  "align_connections xs ys = (map fst (align_slots xs ys), map snd (align_slots xs ys))"

text \<open>
  The loop of \<^verbatim>\<open>distance\<close>: the counters are
  \<open>(excess, disjoint, weight_diff, num_matches)\<close>. A slot that is absent on both
  sides would make the loop read \<^verbatim>\<open>None.id\<close>.
\<close>

fun distance_loop ::
  "int \<Rightarrow> int \<Rightarrow> (connection_gene option \<times> connection_gene option) list \<Rightarrow>
   nat \<times> nat \<times> real \<times> nat \<Rightarrow> error + nat \<times> nat \<times> real \<times> nat" where
  "distance_loop g1_max_innov g2_max_innov [] acc = Inr acc"
| "distance_loop g1_max_innov g2_max_innov ((Some c1, Some c2) # slots) (e, d, wd, m) =
     distance_loop g1_max_innov g2_max_innov slots
       (e, d, wd + \<bar>weight c1 - weight c2\<bar>, m + 1)"
| "distance_loop g1_max_innov g2_max_innov ((None, Some c2) # slots) (e, d, wd, m) =
     (if conn_id c2 > g1_max_innov
      then distance_loop g1_max_innov g2_max_innov slots (e + 1, d, wd, m)
      else distance_loop g1_max_innov g2_max_innov slots (e, d + 1, wd, m))"
| "distance_loop g1_max_innov g2_max_innov ((Some c1, None) # slots) (e, d, wd, m) =
     (if conn_id c1 > g2_max_innov
      then distance_loop g1_max_innov g2_max_innov slots (e + 1, d, wd, m)
      else distance_loop g1_max_innov g2_max_innov slots (e, d + 1, wd, m))"
| "distance_loop g1_max_innov g2_max_innov ((None, None) # slots) (e, d, wd, m) =
     Inl AttributeError"

text \<open>
  \<^verbatim>\<open>Genome.distance\<close>. \<^verbatim>\<open>np.amax\<close> of an empty list raises \<^verbatim>\<open>ValueError\<close>; the
  last division raises \<^verbatim>\<open>ZeroDivisionError\<close> when no gene matches. (\<open>n\<close> is positive
  once both lists are non-empty.)
\<close>

definition distance :: "genome \<Rightarrow> genome \<Rightarrow> error + real" where
  "distance self other =
     (let genes = align_connections (connections self) (connections other) in
      if connections self = [] \<or> connections other = [] then Inl ValueError
      else
        let g1_max_innov = Max (set (map conn_id (connections self)));
            g2_max_innov = Max (set (map conn_id (connections other)))
        in
        (case distance_loop g1_max_innov g2_max_innov (zip (fst genes) (snd genes)) (0, 0, 0, 0) of
           Inl err \<Rightarrow> Inl err
         | Inr (excess, disjoint, weight_diff, num_matches) \<Rightarrow>
             let c1 = excess_genes_coefficient (config self);
                 c2 = disjoint_genes_coefficient (config self);
                 c3 = weight_difference_coefficient (config self);
                 n = max (length (connections self)) (length (connections other))
             in
             if num_matches = 0 then Inl ZeroDivisionError
             else Inr (((c1 * real excess + c2 * real disjoint) / real n)
                       + c3 * weight_diff / real num_matches)))"

subsection \<open>Forward evaluation: \<^verbatim>\<open>Genome.process\<close>\<close>

definition activate_node :: "genome \<Rightarrow> nat \<Rightarrow> real \<Rightarrow> genome" where
  "activate_node g n x = g\<lparr> node_heap := (node_heap g)[n := activate (node_heap g ! n) x] \<rparr>"

text \<open>
  \<^verbatim>\<open>Genome._process_node\<close> and the loop over the incoming connections inside it. The
  first argument bounds the depth of the recursion: \<open>None\<close> means the bound was
  reached. The node is marked as activated before its sources are visited.
  \<^verbatim>\<open>self._activated_nodes[n.id]\<close> raises \<^verbatim>\<open>KeyError\<close> for an identifier that is
  not a key (and \<^verbatim>\<open>TypeError\<close> while the attribute is still \<^verbatim>\<open>None\<close>).
\<close>

fun process_node :: "nat \<Rightarrow> genome \<Rightarrow> nat \<Rightarrow> ((error + real) \<times> genome) option"
and sum_inputs :: "nat \<Rightarrow> genome \<Rightarrow> nat list \<Rightarrow> real \<Rightarrow> ((error + real) \<times> genome) option" where
  "process_node 0 g n = None"
| "process_node (Suc fuel) g n =
     (if type_of g n \<noteq> INPUT \<and> type_of g n \<noteq> BIAS then
        (case activated_nodes g of
           None \<Rightarrow> Some (Inl TypeError, g)
         | Some act \<Rightarrow>
             (case act (id_of g n) of
                None \<Rightarrow> Some (Inl KeyError, g)
              | Some True \<Rightarrow> Some (Inr (activation (node_heap g ! n)), g)
              | Some False \<Rightarrow>
                  (case sum_inputs fuel (g\<lparr> activated_nodes := Some (act(id_of g n \<mapsto> True)) \<rparr>)
                          (in_connections (node_heap g ! n)) 0 of
                     None \<Rightarrow> None
                   | Some (Inl e, g') \<Rightarrow> Some (Inl e, g')
                   | Some (Inr zsum, g') \<Rightarrow>
                       Some (Inr (activation (node_heap (activate_node g' n zsum) ! n)),
                             activate_node g' n zsum))))
      else Some (Inr (activation (node_heap g ! n)), g))"
| "sum_inputs fuel g [] zsum = Some (Inr zsum, g)"
| "sum_inputs fuel g (k # ks) zsum =
     (if enabled (connections g ! k) then
        (case process_node fuel g (from_node (connections g ! k)) of
           None \<Rightarrow> None
         | Some (Inl e, g') \<Rightarrow> Some (Inl e, g')
         | Some (Inr a, g') \<Rightarrow> sum_inputs fuel g' ks (zsum + weight (connections g ! k) * a))
      else sum_inputs fuel g ks zsum)"

text \<open>The loop of \<^verbatim>\<open>process\<close> over the output nodes, filling \<open>h\<close> in order.\<close>

fun process_outputs :: "nat \<Rightarrow> genome \<Rightarrow> nat list \<Rightarrow> ((error + real list) \<times> genome) option" where
  "process_outputs fuel g [] = Some (Inr [], g)"
| "process_outputs fuel g (out_node # outs) =
     (case process_node fuel g out_node of
        None \<Rightarrow> None
      | Some (Inl e, g') \<Rightarrow> Some (Inl e, g')
      | Some (Inr a, g') \<Rightarrow>
          (case process_outputs fuel g' outs of
             None \<Rightarrow> None
           | Some (Inl e, g'') \<Rightarrow> Some (Inl e, g'')
           | Some (Inr h, g'') \<Rightarrow> Some (Inr (a # h), g'')))"

definition feed_inputs :: "genome \<Rightarrow> real list \<Rightarrow> genome" where
  "feed_inputs g X = fold (\<lambda>(n, x) g'. activate_node g' n x) (zip (input_nodes g) X) g"

definition reset_activated :: "genome \<Rightarrow> genome" where
  "reset_activated g =
     g\<lparr> activated_nodes :=
          Some (fold (\<lambda>n m. m(id_of g n \<mapsto> False)) (output_nodes g @ hidden_nodes g) Map.empty) \<rparr>"

text \<open>
  \<^verbatim>\<open>Genome.process\<close>: the failed \<^verbatim>\<open>assert\<close> on the input length is
  \<open>AssertionError\<close>.
\<close>

definition process :: "nat \<Rightarrow> genome \<Rightarrow> real list \<Rightarrow> ((error + real list) \<times> genome) option" where
  "process fuel g X =
     (if length X \<noteq> length (input_nodes g) then Some (Inl AssertionError, g)
      else process_outputs fuel (reset_activated (feed_inputs g X)) (output_nodes g))"

subsection \<open>Crossover: \<^verbatim>\<open>mate_genomes\<close>\<close>

text \<open>The dictionary \<^verbatim>\<open>added_nodes = {n.id: n for n in new_gen.nodes()}\<close>.\<close>

definition added_nodes_init :: "genome \<Rightarrow> (int \<rightharpoonup> nat)" where
  "added_nodes_init g = fold (\<lambda>n m. m(id_of g n \<mapsto> n)) (nodes g) Map.empty"

text \<open>
  One round of the loop over \<^verbatim>\<open>(c.from_node, c.to_node)\<close>: a hidden node of the
  parent whose identifier is not yet a key is shallow-copied into the offspring.
\<close>

definition add_hidden ::
  "genome \<Rightarrow> nat \<Rightarrow> genome \<times> (int \<rightharpoonup> nat) \<Rightarrow> genome \<times> (int \<rightharpoonup> nat)" where
  "add_hidden parent n s =
     (case s of (new_gen, added_nodes) \<Rightarrow>
        if type_of parent n = HIDDEN \<and> added_nodes (id_of parent n) = None then
          (case new_node new_gen (shallow_copy_node (node_heap parent ! n)) of
             (k, g') \<Rightarrow>
               (g'\<lparr> hidden_nodes := hidden_nodes g' @ [k] \<rparr>, added_nodes(id_of parent n \<mapsto> k)))
        else (new_gen, added_nodes))"

text \<open>\<^verbatim>\<open>c is not None and not c.enabled\<close>.\<close>

definition disabled_gene :: "connection_gene option \<Rightarrow> bool" where
  "disabled_gene c = (case c of None \<Rightarrow> False | Some x \<Rightarrow> \<not> enabled x)"

text \<open>
  The body of the loop of \<^verbatim>\<open>mate_genomes\<close> for one aligned slot \<open>(c1, c2)\<close>. The
  state is the offspring, the dictionary \<open>added_nodes\<close>, the ID handler and the random
  source. \<^verbatim>\<open>np.random.choice((c1, c2))\<close> draws position 0 or 1 of the pair; the
  chosen gene belongs to \<open>gen1\<close> or to \<open>gen2\<close> accordingly. In
  \<^verbatim>\<open>enabled = (disabled in a parent) and utils.chance(...)\<close> the second operand is
  only evaluated when the first is true. Only \<^verbatim>\<open>ConnectionExistsError\<close> is caught.
\<close>

definition mate_slot ::
  "genome \<Rightarrow> genome \<Rightarrow> connection_gene option \<times> connection_gene option \<Rightarrow>
   genome \<times> (int \<rightharpoonup> nat) \<times> id_handler \<times> rng \<Rightarrow>
   error + genome \<times> (int \<rightharpoonup> nat) \<times> id_handler \<times> rng" where
  "mate_slot gen1 gen2 slot s =
     (case slot of (c1, c2) \<Rightarrow>
      case s of (new_gen, added_nodes, h, r) \<Rightarrow>
        if c1 = None \<and> adj_fitness gen1 > adj_fitness gen2 then Inr s
        else if c2 = None \<and> adj_fitness gen2 > adj_fitness gen1 then Inr s
        else
          (case random_choice 2 r of
             (pick, r1) \<Rightarrow>
               (case (if pick = 0 then (c1, gen1) else (c2, gen2)) of
                  (None, _) \<Rightarrow> Inr (new_gen, added_nodes, h, r1)
                | (Some c, parent) \<Rightarrow>
                    (case add_hidden parent (to_node c)
                            (add_hidden parent (from_node c) (new_gen, added_nodes)) of
                       (g', added') \<Rightarrow>
                         (case (if disabled_gene c1 \<or> disabled_gene c2
                                then chance (disable_inherited_connection_chance (config gen1)) r1
                                else (False, r1)) of
                            (en, r2) \<Rightarrow>
                              (case added' (id_of parent (from_node c)) of
                                 None \<Rightarrow> Inl KeyError
                               | Some src_node \<Rightarrow>
                                   (case added' (id_of parent (to_node c)) of
                                      None \<Rightarrow> Inl KeyError
                                    | Some dest_node \<Rightarrow>
                                        (case add_connection g' h r2 src_node dest_node en
                                                (Some (conn_id c)) (Some (weight c)) of
                                           (None, g'', h', r') \<Rightarrow> Inr (g'', added', h', r')
                                         | (Some ConnectionExistsError, g'', h', r') \<Rightarrow>
                                             Inr (g'', added', h', r')
                                         | (Some e, _) \<Rightarrow> Inl e))))))))"

fun mate_loop ::
  "genome \<Rightarrow> genome \<Rightarrow> (connection_gene option \<times> connection_gene option) list \<Rightarrow>
   genome \<times> (int \<rightharpoonup> nat) \<times> id_handler \<times> rng \<Rightarrow>
   error + genome \<times> (int \<rightharpoonup> nat) \<times> id_handler \<times> rng" where
  "mate_loop gen1 gen2 [] s = Inr s"
| "mate_loop gen1 gen2 (slot # slots) s =
     (case mate_slot gen1 gen2 slot s of
        Inl e \<Rightarrow> Inl e
      | Inr s' \<Rightarrow> mate_loop gen1 gen2 slots s')"

definition mate_genomes ::
  "genome \<Rightarrow> genome \<Rightarrow> id_handler \<Rightarrow> rng \<Rightarrow> error + genome \<times> id_handler \<times> rng" where
  "mate_genomes gen1 gen2 h r =
     (let genes = align_connections (connections gen1) (connections gen2) in
      case shallow_copy gen1 h r of
        Inl e \<Rightarrow> Inl e
      | Inr (new_gen, h1, r1) \<Rightarrow>
          (case mate_loop gen1 gen2 (zip (fst genes) (snd genes))
                  (new_gen, added_nodes_init new_gen, h1, r1) of
             Inl e \<Rightarrow> Inl e
           | Inr (g, _, h2, r2) \<Rightarrow> Inr (g, h2, r2)))"

subsection \<open>Well-formed genomes\<close>

text \<open>
  \<open>has_connection g src dest\<close>: the connection sequence holds a connection from the
  node \<open>src\<close> to the node \<open>dest\<close>.

  A genome is well-formed when its references point into its stores, no connection leads
  into an input or bias node, the adjacency lists of the nodes and the connection
  sequence agree (a connection is listed as outgoing at its source and as incoming at its
  destination, and nowhere else), node identifiers are unique within the genome, and
  the node objects are exactly those of the four node collections, each with the type of
  its collection.
\<close>

definition has_connection :: "genome \<Rightarrow> nat \<Rightarrow> nat \<Rightarrow> bool" where
  "has_connection g src dest \<longleftrightarrow>
     list_ex (\<lambda>c. from_node c = src \<and> to_node c = dest) (connections g)"

definition wf_genome :: "genome \<Rightarrow> bool" where
  "wf_genome g \<longleftrightarrow>
     (\<forall>c \<in> set (connections g).
        from_node c < length (node_heap g) \<and> to_node c < length (node_heap g) \<and>
        type_of g (to_node c) \<noteq> INPUT \<and> type_of g (to_node c) \<noteq> BIAS) \<and>
     (\<forall>n \<in> set [0 ..< length (node_heap g)].
        (\<forall>k \<in> set (out_connections (node_heap g ! n)).
           k < length (connections g) \<and> from_node (connections g ! k) = n) \<and>
        (\<forall>k \<in> set (in_connections (node_heap g ! n)).
           k < length (connections g) \<and> to_node (connections g ! k) = n)) \<and>
     (\<forall>k \<in> set [0 ..< length (connections g)].
        k \<in> set (out_connections (node_heap g ! from_node (connections g ! k))) \<and>
        k \<in> set (in_connections (node_heap g ! to_node (connections g ! k)))) \<and>
     distinct (map node_id (node_heap g)) \<and>
     (\<forall>n \<in> set (input_nodes g). n < length (node_heap g) \<and> type_of g n = INPUT) \<and>
     (\<forall>n \<in> set (output_nodes g). n < length (node_heap g) \<and> type_of g n = OUTPUT) \<and>
     (\<forall>n \<in> set (hidden_nodes g). n < length (node_heap g) \<and> type_of g n = HIDDEN) \<and>
     (\<forall>n \<in> set_option (bias_node g). n < length (node_heap g) \<and> type_of g n = BIAS) \<and>
     (\<forall>n \<in> set [0 ..< length (node_heap g)]. n \<in> set (nodes g))"

subsection \<open>The distance formula in the words of the specification\<close>

text \<open>
  An aligned slot is matching when both sides hold a gene. A slot that is not matching
  is excess when the identifier of its gene is strictly greater than the greatest
  identifier of the genome that lacks the gene, and disjoint otherwise. The distance is
  \<open>(c1 * excess + c2 * disjoint) / N + c3 * (sum of the absolute weight differences of
  the matching slots / number of matching slots)\<close> with
  \<open>N = max (len(connections_a)) (len(connections_b))\<close>.
\<close>


fun is_match :: "connection_gene option \<times> connection_gene option \<Rightarrow> bool" where
  "is_match (Some c1, Some c2) = True"
| "is_match slot = False"

fun is_excess :: "connection_gene list \<Rightarrow> connection_gene list \<Rightarrow>
    connection_gene option \<times> connection_gene option \<Rightarrow> bool" where
  "is_excess xs ys (None, Some c2) = (conn_id c2 > Max (set (map conn_id xs)))"
| "is_excess xs ys (Some c1, None) = (conn_id c1 > Max (set (map conn_id ys)))"
| "is_excess xs ys slot = False"

definition is_disjoint :: "connection_gene list \<Rightarrow> connection_gene list \<Rightarrow>
    connection_gene option \<times> connection_gene option \<Rightarrow> bool" where
  "is_disjoint xs ys slot \<longleftrightarrow> \<not> is_match slot \<and> \<not> is_excess xs ys slot"

fun weight_difference :: "connection_gene option \<times> connection_gene option \<Rightarrow> real" where
  "weight_difference (Some c1, Some c2) = \<bar>weight c1 - weight c2\<bar>"
| "weight_difference slot = 0"

definition distance_formula :: "genome \<Rightarrow> genome \<Rightarrow> real" where
  "distance_formula self other =
     (let xs = connections self; ys = connections other;
          slots = align_slots xs ys;
          excess = length (filter (is_excess xs ys) slots);
          disjoint = length (filter (is_disjoint xs ys) slots);
          num_matches = length (filter is_match slots);
          N = max (length xs) (length ys)
      in (excess_genes_coefficient (config self) * real excess
            + disjoint_genes_coefficient (config self) * real disjoint) / real N
         + weight_difference_coefficient (config self)
             * (sum_list (map weight_difference (filter is_match slots)) / real num_matches))"

subsection \<open>The state of a forward evaluation\<close>

text \<open>
  Notions for reasoning about \<^verbatim>\<open>_process_node\<close>: the mark of an identifier in
  \<open>activated_nodes\<close>; a node is settled when its activation will not be computed
  again (an input or bias node, or a node marked as activated); the unmarked nodes bound
  the depth of the recursion; \<open>process_ready\<close> collects what the recursion reads;
  \<open>evolves g g'\<close> relates a state to a later state of the same evaluation: same graph,
  marks only ever set, activations of settled nodes kept.
\<close>

definition mark_of :: "genome \<Rightarrow> int \<Rightarrow> bool option" where
  "mark_of g i = (case activated_nodes g of None \<Rightarrow> None | Some act \<Rightarrow> act i)"

definition settled :: "genome \<Rightarrow> nat \<Rightarrow> bool" where
  "settled g n \<longleftrightarrow>
     type_of g n = INPUT \<or> type_of g n = BIAS \<or> mark_of g (id_of g n) = Some True"

definition unmarked :: "genome \<Rightarrow> nat set" where
  "unmarked g = {n. n < length (node_heap g) \<and> mark_of g (id_of g n) = Some False}"

definition process_ready :: "genome \<Rightarrow> bool" where
  "process_ready g \<longleftrightarrow>
     activated_nodes g \<noteq> None \<and>
     (\<forall>n < length (node_heap g). \<forall>k \<in> set (in_connections (node_heap g ! n)).
        k < length (connections g)) \<and>
     (\<forall>c \<in> set (connections g). from_node c < length (node_heap g)) \<and>
     (\<forall>n < length (node_heap g).
        type_of g n \<noteq> INPUT \<and> type_of g n \<noteq> BIAS \<longrightarrow> mark_of g (id_of g n) \<noteq> None)"

definition same_graph :: "genome \<Rightarrow> genome \<Rightarrow> bool" where
  "same_graph g g' \<longleftrightarrow>
     connections g' = connections g \<and>
     length (node_heap g') = length (node_heap g) \<and>
     (\<forall>n < length (node_heap g).
        id_of g' n = id_of g n \<and> type_of g' n = type_of g n \<and>
        in_connections (node_heap g' ! n) = in_connections (node_heap g ! n))"

definition evolves :: "genome \<Rightarrow> genome \<Rightarrow> bool" where
  "evolves g g' \<longleftrightarrow>
     same_graph g g' \<and>
     (activated_nodes g \<noteq> None \<longrightarrow> activated_nodes g' \<noteq> None) \<and>
     (\<forall>i. mark_of g' i = mark_of g i \<or> (mark_of g i = Some False \<and> mark_of g' i = Some True)) \<and>
     (\<forall>n < length (node_heap g).
        settled g n \<longrightarrow> activation (node_heap g' ! n) = activation (node_heap g ! n))"

definition node_total :: "nat \<Rightarrow> bool" where
  "node_total fuel \<longleftrightarrow>
     (\<forall>g n. process_ready g \<longrightarrow> n < length (node_heap g) \<longrightarrow> card (unmarked g) < fuel \<longrightarrow>
        (\<exists>a g'. process_node fuel g n = Some (Inr a, g') \<and> evolves g g' \<and>
                 a = activation (node_heap g' ! n) \<and> settled g' n))"

definition same_nodes :: "genome \<Rightarrow> genome \<Rightarrow> bool" where
  "same_nodes g g' \<longleftrightarrow>
     same_graph g g' \<and> output_nodes g' = output_nodes g \<and> hidden_nodes g' = hidden_nodes g"

subsection \<open>Valid parents and the invariant of crossover\<close>

text \<open>
  The constructor numbers the nodes of a genome with \<open>ni\<close> inputs, a bias node or
  none, and \<open>no\<close> outputs: identifiers \<open>0 .. ni - 1\<close> are the input nodes, \<open>ni\<close> is
  the bias node if there is one, the next \<open>no\<close> identifiers are the output nodes;
  every other identifier belongs to a hidden node. \<open>layout_type\<close> is the type this
  numbering gives an identifier, and a genome follows the layout when each of its nodes
  has the type of its identifier.

  Two parents are valid for \<^verbatim>\<open>mate_genomes\<close> when both are well-formed and both follow
  the layout of the first (whose numbers of input and output nodes and whose
  configuration the offspring is built from).
\<close>

definition layout_type :: "nat \<Rightarrow> bool \<Rightarrow> nat \<Rightarrow> int \<Rightarrow> NodeType" where
  "layout_type ni bb no i =
     (if 0 \<le> i \<and> i < int ni then INPUT
      else if bb \<and> i = int ni then BIAS
      else if int ni \<le> i \<and> i < int (ni + (if bb then 1 else 0) + no) then OUTPUT
      else HIDDEN)"

definition follows_layout :: "nat \<Rightarrow> bool \<Rightarrow> nat \<Rightarrow> genome \<Rightarrow> bool" where
  "follows_layout ni bb no g \<longleftrightarrow>
     list_all (\<lambda>n. type_of g n = layout_type ni bb no (id_of g n)) [0 ..< length (node_heap g)]"

definition valid_parents :: "genome \<Rightarrow> genome \<Rightarrow> bool" where
  "valid_parents gen1 gen2 \<longleftrightarrow>
     wf_genome gen1 \<and> wf_genome gen2 \<and>
     follows_layout (length (input_nodes gen1)) (bias_value (config gen1) \<noteq> None)
       (length (output_nodes gen1)) gen1 \<and>
     follows_layout (length (input_nodes gen1)) (bias_value (config gen1) \<noteq> None)
       (length (output_nodes gen1)) gen2"

text \<open>
  \<open>pair_ids\<close> is the (source, destination) pair of node identifiers of a connection;
  a genome has no duplicate connections when these pairs are distinct.
\<close>

definition pair_ids :: "genome \<Rightarrow> connection_gene \<Rightarrow> int \<times> int" where
  "pair_ids g c = (id_of g (from_node c), id_of g (to_node c))"

definition no_duplicate_connections :: "genome \<Rightarrow> bool" where
  "no_duplicate_connections g \<longleftrightarrow> distinct (map (pair_ids g) (connections g))"

text \<open>
  \<open>built a b c g\<close>: the state of the constructor (without initial connections) after
  \<open>a\<close> input nodes, \<open>b\<close> bias nodes and \<open>c\<close> output nodes.

  \<open>offspring_inv\<close> is the invariant of the loop of \<^verbatim>\<open>mate_genomes\<close> on the offspring
  and the dictionary \<open>added_nodes\<close>: the dictionary maps exactly the identifiers of the
  offspring's nodes to these nodes; every connection is listed as outgoing at its source;
  there are no duplicate connections; the offspring follows the layout; and the
  identifiers of the layout's input, bias and output nodes are keys of the dictionary.
  \<open>parent_conn_ok\<close> is what the loop needs of a parent's connection.
\<close>

definition built :: "nat \<Rightarrow> nat \<Rightarrow> nat \<Rightarrow> genome \<Rightarrow> bool" where
  "built a b c g \<longleftrightarrow>
     length (node_heap g) = a + b + c \<and> connections g = [] \<and>
     input_nodes g = [0 ..< a] \<and> bias_node g = (if b = 0 then None else Some a) \<and>
     output_nodes g = [a + b ..< a + b + c] \<and> hidden_nodes g = [] \<and>
     (\<forall>n < a + b + c.
        id_of g n = int n \<and>
        type_of g n = (if n < a then INPUT else if n < a + b then BIAS else OUTPUT))"

definition offspring_inv :: "nat \<Rightarrow> bool \<Rightarrow> nat \<Rightarrow> genome \<Rightarrow> (int \<rightharpoonup> nat) \<Rightarrow> bool" where
  "offspring_inv ni bb no g added \<longleftrightarrow>
     (\<forall>n < length (node_heap g). added (id_of g n) = Some n) \<and>
     (\<forall>i n. added i = Some n \<longrightarrow> n < length (node_heap g) \<and> id_of g n = i) \<and>
     (\<forall>k < length (connections g).
        from_node (connections g ! k) < length (node_heap g) \<and>
        to_node (connections g ! k) < length (node_heap g) \<and>
        k \<in> set (out_connections (node_heap g ! from_node (connections g ! k)))) \<and>
     no_duplicate_connections g \<and>
     (\<forall>n < length (node_heap g). type_of g n = layout_type ni bb no (id_of g n)) \<and>
     (\<forall>i. layout_type ni bb no i \<noteq> HIDDEN \<longrightarrow> added i \<noteq> None)"

definition parent_conn_ok :: "nat \<Rightarrow> bool \<Rightarrow> nat \<Rightarrow> genome \<Rightarrow> connection_gene \<Rightarrow> bool" where
  "parent_conn_ok ni bb no p c \<longleftrightarrow>
     type_of p (to_node c) \<noteq> INPUT \<and> type_of p (to_node c) \<noteq> BIAS \<and>
     type_of p (from_node c) = layout_type ni bb no (id_of p (from_node c)) \<and>
     type_of p (to_node c) = layout_type ni bb no (id_of p (to_node c))"

subsection \<open>Concrete genomes for the examples\<close>

text \<open>
  A configuration with a bias node of value \<open>1\<close> and linear activations, a random
  source whose picks are all \<open>k\<close>, and two parents with one input and one output
  built by the constructor with the same ID handler, the first with or without its
  initial connection.
\<close>

definition example_config :: config where
  "example_config =
     \<lparr> bias_value = Some 1, out_nodes_activation = linear, hidden_nodes_activation = linear,
       initial_node_activation = 0, new_weight_interval = (- 1, 1), weight_reset_chance = 1 / 10,
       weight_perturbation_pc = 1 / 10, excess_genes_coefficient = 1,
       disjoint_genes_coefficient = 1, weight_difference_coefficient = 1 / 2,
       disable_inherited_connection_chance = 3 / 4, allow_self_connections = True \<rparr>"

definition const_rng :: "nat \<Rightarrow> rng" where
  "const_rng k = \<lparr> samples = (\<lambda>_. 0), picks = (\<lambda>_. k), rng_pos = 0 \<rparr>"

definition two_parents :: "bool \<Rightarrow> nat \<Rightarrow> (genome \<times> genome \<times> id_handler \<times> rng) option" where
  "two_parents initial_connections k =
     (case Genome 1 1 (IdHandler 1 1 True) example_config None initial_connections (const_rng k) of
        Inl e \<Rightarrow> None
      | Inr (g1, h1, r1) \<Rightarrow>
          (case Genome 1 1 h1 example_config None True r1 of
             Inl e \<Rightarrow> None
           | Inr (g2, h2, r2) \<Rightarrow> Some (g1, g2, h2, r2)))"

text \<open>The assignment \<^verbatim>\<open>c.weight = w\<close> for every connection of a genome.\<close>

definition set_weights :: "real \<Rightarrow> genome \<Rightarrow> genome" where
  "set_weights w g = g\<lparr> connections := map (\<lambda>c. c\<lparr> weight := w \<rparr>) (connections g) \<rparr>"

text \<open>
  The first example parent after one call of \<^verbatim>\<open>add_random_hidden_node\<close> and with
  all its weights set to \<open>2\<close>, next to the second parent.
\<close>

definition split_parent :: "(genome \<times> genome) option" where
  "split_parent =
     (case two_parents True 0 of
        None \<Rightarrow> None
      | Some (g1, g2, h, r) \<Rightarrow>
          (case add_random_hidden_node g1 h r of (_, g1', _, _) \<Rightarrow> Some (set_weights 2 g1', g2)))"

text \<open>
  Two parents whose single connection has the same source and destination and different
  innovation identifiers (the ID handler was reset between the two constructions), with
  a random source whose picks make \<^verbatim>\<open>mate_genomes\<close> choose the present gene in both
  slots.
\<close>

definition counting_rng :: rng where
  "counting_rng = \<lparr> samples = (\<lambda>_. 0), picks = (\<lambda>p. p), rng_pos = 0 \<rparr>"

definition conflicting_parents :: "(genome \<times> genome \<times> id_handler \<times> rng) option" where
  "conflicting_parents =
     (case Genome 1 1 (IdHandler 1 1 True) example_config None True counting_rng of
        Inl e \<Rightarrow> None
      | Inr (g1, h1, r1) \<Rightarrow>
          (case Genome 1 1 (reset h1) example_config None True r1 of
             Inl e \<Rightarrow> None
           | Inr (g2, h2, r2) \<Rightarrow> Some (g1, g2, h2, r2)))"


text \<open>
  Two states of a genome with the same node objects and the same connections up to their
  weights.
\<close>

definition same_topology :: "genome \<Rightarrow> genome \<Rightarrow> bool" where
  "same_topology g g' \<longleftrightarrow>
     node_heap g' = node_heap g \<and> input_nodes g' = input_nodes g \<and>
     hidden_nodes g' = hidden_nodes g \<and> output_nodes g' = output_nodes g \<and>
     bias_node g' = bias_node g \<and>
     length (connections g') = length (connections g) \<and>
     map conn_id (connections g') = map conn_id (connections g) \<and>
     map from_node (connections g') = map from_node (connections g) \<and>
     map to_node (connections g') = map to_node (connections g) \<and>
     map enabled (connections g') = map enabled (connections g)"

section \<open>The ID handler's initial counters\<close>

lemma IdHandler_connection_counter:
  "connection_counter (IdHandler num_inputs num_outputs has_bias) = num_inputs * num_outputs"
  by (simp add: IdHandler_def)

lemma IdHandler_node_counter_bias:
  "node_counter (IdHandler num_inputs num_outputs True) = num_inputs + num_outputs + 1"
  by (simp add: IdHandler_def)

text \<open>
  Claim C2. The claim asks that without a bias node the node counter start at
  \<open>num_inputs + num_outputs\<close>. The constructor leaves it at \<open>0\<close> there: for two
  inputs, one output and no bias the counter is \<open>0\<close>, not \<open>3\<close>. (With a bias node it
  is \<open>num_inputs + num_outputs + 1\<close>, and the connection counter is the product in both
  cases, see the two lemmas above.)
\<close>

theorem IdHandler_no_bias_node_counter:
  "node_counter (IdHandler 2 1 False) = 0 \<and> node_counter (IdHandler 2 1 False) \<noteq> 2 + 1"
  by (simp add: IdHandler_def)


section \<open>Evaluating the examples\<close>

lemmas eval_defs =
  Genome_def IdHandler_def example_config_def const_rng_def two_parents_def set_weights_def
  next_genome_id_def next_connection_id_def next_hidden_node_id_def
  new_node_def NodeGene_def ConnectionGene_def shallow_copy_node_def
  add_connection_def connection_exists_def type_of_def id_of_def nodes_def
  random_uniform_def random_choice_def chance_def linear_def
  activate_node_def activate_def

section \<open>Forward evaluation of the initial topology\<close>

text \<open>
  Claim C3, as the claim states it, fails: the constructor connects the input nodes to
  the output node and leaves the bias node unconnected, so with all weights \<open>1\<close> the
  inputs \<open>[2, 3]\<close> give \<open>5\<close>, not \<open>6\<close>.
\<close>

theorem process_initial_topology_not_6:
  "(case Genome 2 1 (IdHandler 2 1 True) example_config None True (const_rng 0) of
      Inl e \<Rightarrow> False
    | Inr (g, h', r') \<Rightarrow>
        map_option fst (process 2 (set_weights 1 g) [2, 3]) = Some (Inr [5]) \<and>
        map_option fst (process 2 (set_weights 1 g) [2, 3]) \<noteq> Some (Inr [6]))"
  by (simp add: eval_defs process_def feed_inputs_def reset_activated_def numeral_2_eq_2)

text \<open>
  Claim C3, amended: for a genome constructed with 2 input nodes, 1 output node, a bias
  node of value \<open>1\<close>, full initial input-to-output connectivity and a linear output
  activation (whatever the other options, the ID handler, the genome id and the random
  draws are), after all weights are set to \<open>1\<close>, \<open>process [2, 3]\<close> returns the single
  output value \<open>5\<close>, for every recursion bound of at least 2.
\<close>

theorem process_initial_topology:
  "(case Genome 2 1 h (cfg\<lparr> bias_value := Some 1, out_nodes_activation := linear \<rparr>) gid True r of
      Inl e \<Rightarrow> False
    | Inr (g, h', r') \<Rightarrow>
        map_option fst (process (Suc (Suc fuel)) (set_weights 1 g) [2, 3]) = Some (Inr [5]))"
  by (simp add: Genome_def set_weights_def next_genome_id_def
     new_node_def NodeGene_def add_connection_def connection_exists_def type_of_def id_of_def
     next_connection_id_def random_uniform_def ConnectionGene_def process_def feed_inputs_def
     reset_activated_def activate_node_def activate_def linear_def numeral_2_eq_2
     split: option.splits prod.splits)

section \<open>Crossover\<close>

text \<open>
  Claim C1. Two parents with one input, a bias and one output each carry the gene with
  innovation id 1 for the connection from the input to the output, enabled in both. The
  claim asks that the offspring's copy be enabled; in the offspring that
  \<^verbatim>\<open>mate_genomes\<close> returns it is disabled.
\<close>

theorem mate_genomes_disables_enabled_gene:
  "(case two_parents True 0 of
      None \<Rightarrow> False
    | Some (g1, g2, h, r) \<Rightarrow>
        map conn_id (connections g1) = [1] \<and> map enabled (connections g1) = [True] \<and>
        map conn_id (connections g2) = [1] \<and> map enabled (connections g2) = [True] \<and>
        (case mate_genomes g1 g2 h r of
           Inl e \<Rightarrow> False
         | Inr (g, h', r') \<Rightarrow>
             map conn_id (connections g) = [1] \<and> map enabled (connections g) = [False]))"
  by (simp add: eval_defs mate_genomes_def shallow_copy_def align_connections_def
      added_nodes_init_def mate_slot_def add_hidden_def disabled_gene_def)

text \<open>
  Claim C4, as the claim states it, fails: the first parent has no connection, the second
  parent owns the gene with innovation id 1 and has the strictly higher adjusted fitness;
  when the random choice falls on the second parent's side the gene is inherited, not
  dropped.
\<close>

theorem mate_genomes_keeps_gene_of_fitter_owner:
  "(case two_parents False 1 of
      None \<Rightarrow> False
    | Some (g1, g2, h, r) \<Rightarrow>
        connections g1 = [] \<and> map conn_id (connections g2) = [1] \<and>
        adj_fitness (g2\<lparr> adj_fitness := 1 \<rparr>) > adj_fitness g1 \<and>
        (case mate_genomes g1 (g2\<lparr> adj_fitness := 1 \<rparr>) h r of
           Inl e \<Rightarrow> False
         | Inr (g, h', r') \<Rightarrow> map conn_id (connections g) = [1]))"
  by (simp add: eval_defs mate_genomes_def shallow_copy_def align_connections_def
      added_nodes_init_def mate_slot_def add_hidden_def disabled_gene_def)

text \<open>
  Claim C4, amended: for every aligned slot where the connection gene is absent in one
  parent, if that parent (the one lacking the gene) has strictly higher adjusted
  fitness than the other, the gene is dropped: the slot leaves the offspring, the
  dictionary of its nodes, the ID handler and the random source as they were.
\<close>

theorem mate_slot_drops_gene_absent_in_fitter_parent:
  "(c1 = None \<and> adj_fitness gen1 > adj_fitness gen2) \<or>
   (c2 = None \<and> adj_fitness gen2 > adj_fitness gen1) \<Longrightarrow>
   mate_slot gen1 gen2 (c1, c2) s = Inr s"
  by (cases s) (auto simp: mate_slot_def)

theorem mate_slot_drops_gene_absent_in_fitter_parent_witness:
  "(case two_parents False 1 of
      None \<Rightarrow> False
    | Some (g1, g2, h, r) \<Rightarrow>
        adj_fitness (g1\<lparr> adj_fitness := 1 \<rparr>) > adj_fitness g2 \<and>
        mate_slot (g1\<lparr> adj_fitness := 1 \<rparr>) g2 (None, Some (connections g2 ! 0))
          (g1, Map.empty, h, r) = Inr (g1, Map.empty, h, r))"
proof -
  obtain g1 g2 h r where p: "two_parents False 1 = Some (g1, g2, h, r)"
    by (simp add: eval_defs)
  have f: "adj_fitness (g1\<lparr> adj_fitness := 1 \<rparr>) > adj_fitness g2"
    using p by (auto simp: eval_defs)
  then have d:
    "((None :: connection_gene option) = None \<and>
        adj_fitness (g1\<lparr> adj_fitness := 1 \<rparr>) > adj_fitness g2) \<or>
     (Some (connections g2 ! 0) = None \<and>
        adj_fitness g2 > adj_fitness (g1\<lparr> adj_fitness := 1 \<rparr>))"
    by simp
  show ?thesis
    using p f mate_slot_drops_gene_absent_in_fitter_parent [OF d, of "(g1, Map.empty, h, r)"]
    by simp
qed

section \<open>Splitting a connection\<close>

text \<open>
  Claim C7. A genome with one input, a bias and one output has the single connection
  \<open>0 \<rightarrow> 2\<close>. The first call of \<^verbatim>\<open>add_random_hidden_node\<close> splits it: node 3 is new
  and there are three connections. The second call draws the same (now disabled)
  connection again; the ID handler returns the cached id 3 for the split, the source
  node already has a connection to a node with id 3, and \<^verbatim>\<open>add_connection\<close> raises
  \<^verbatim>\<open>ConnectionExistsError\<close> after the new node was appended: the node count has
  grown by one, the connection count has not grown.
\<close>

theorem add_random_hidden_node_twice:
  "(case Genome 1 1 (IdHandler 1 1 True) example_config None True (const_rng 0) of
      Inl e \<Rightarrow> False
    | Inr (g1, h1, r1) \<Rightarrow>
        (case add_random_hidden_node g1 h1 r1 of
           (res2, g2, h2, r2) \<Rightarrow>
             res2 = Inr 3 \<and> length (nodes g2) = 4 \<and> length (connections g2) = 3 \<and>
             (case add_random_hidden_node g2 h2 r2 of
                (res3, g3, h3, r3) \<Rightarrow>
                  res3 = Inl ConnectionExistsError \<and>
                  length (nodes g3) = 5 \<and> length (connections g3) = 3)))"
  by (simp add: eval_defs add_random_hidden_node_def)

section \<open>Weight mutation\<close>

lemma map_update_same:
  "f y = f (xs ! k) \<Longrightarrow> map f (xs[k := y]) = map f xs"
  by (induction xs arbitrary: k) (auto split: nat.splits)

lemma mutate_weight_same_topology:
  "same_topology g (fst (mutate_weight k (g, r)))"
  by (simp add: mutate_weight_def same_topology_def map_update_same Let_def
      split: prod.splits bool.splits)

lemma same_topology_trans:
  "same_topology a b \<Longrightarrow> same_topology b c \<Longrightarrow> same_topology a c"
  by (simp add: same_topology_def)

lemma fold_mutate_weight_same_topology:
  "same_topology g (fst (fold mutate_weight ks (g, r)))"
proof (induction ks arbitrary: g r)
  case Nil
  show ?case by (simp add: same_topology_def)
next
  case (Cons k ks)
  obtain g1 r1 where s: "mutate_weight k (g, r) = (g1, r1)"
    by (cases "mutate_weight k (g, r)")
  have "same_topology g g1"
    using mutate_weight_same_topology [of g k r] s by simp
  moreover have "same_topology g1 (fst (fold mutate_weight ks (g1, r1)))"
    by (rule Cons.IH)
  ultimately show ?case
    using s by (simp add: same_topology_trans)
qed

text \<open>
  Claim C10. \<^verbatim>\<open>mutate_weights\<close> changes connection weights only: whatever the random
  draws, afterwards the node objects (with their adjacency lists), the lists of input,
  hidden and output nodes and the bias node are the same, the number of connections is
  the same, and every connection has its innovation id, source node, destination node
  and enabled flag as before.
\<close>

theorem mutate_weights_frame:
  "node_heap (fst (mutate_weights g r)) = node_heap g \<and>
   nodes (fst (mutate_weights g r)) = nodes g \<and>
   length (connections (fst (mutate_weights g r))) = length (connections g) \<and>
   map conn_id (connections (fst (mutate_weights g r))) = map conn_id (connections g) \<and>
   map from_node (connections (fst (mutate_weights g r))) = map from_node (connections g) \<and>
   map to_node (connections (fst (mutate_weights g r))) = map to_node (connections g) \<and>
   map enabled (connections (fst (mutate_weights g r))) = map enabled (connections g)"
  using fold_mutate_weight_same_topology [of g "[0 ..< length (connections g)]" r]
  by (simp add: mutate_weights_def same_topology_def nodes_def)


section \<open>Adding a connection\<close>

lemma wf_connection:
  assumes "wf_genome g" "k < length (connections g)"
  shows "from_node (connections g ! k) < length (node_heap g)"
    and "to_node (connections g ! k) < length (node_heap g)"
    and "type_of g (to_node (connections g ! k)) \<noteq> INPUT"
    and "type_of g (to_node (connections g ! k)) \<noteq> BIAS"
    and "k \<in> set (out_connections (node_heap g ! from_node (connections g ! k)))"
    and "k \<in> set (in_connections (node_heap g ! to_node (connections g ! k)))"
  using assms unfolding wf_genome_def by (simp_all add: Ball_def)


lemma wf_in_connections:
  assumes "wf_genome g" "n < length (node_heap g)" "k \<in> set (in_connections (node_heap g ! n))"
  shows "k < length (connections g)" and "to_node (connections g ! k) = n"
  using assms unfolding wf_genome_def by (simp_all add: Ball_def)










lemma example_parent_wf: "(case two_parents True 0 of None \<Rightarrow> False | Some (g1, g2, h, r) \<Rightarrow>
   wf_genome g1 \<and> has_connection g1 0 2 \<and> type_of g1 1 = BIAS \<and> length (node_heap g1) = 3)"
  by (simp add: eval_defs wf_genome_def has_connection_def atLeastLessThanSuc)



section \<open>The distance between two genomes\<close>

lemma align_slots_not_both_absent: "(None, None) \<notin> set (align_slots xs ys)"
  by (induction xs ys rule: align_slots.induct) auto

lemma distance_loop_counts:
  "(None, None) \<notin> set slots \<Longrightarrow>
   distance_loop (Max (set (map conn_id xs))) (Max (set (map conn_id ys))) slots (e, d, wd, m) =
     Inr (e + length (filter (is_excess xs ys) slots),
          d + length (filter (is_disjoint xs ys) slots),
          wd + sum_list (map weight_difference (filter is_match slots)),
          m + length (filter is_match slots))"
proof (induction slots arbitrary: e d wd m)
  case Nil
  show ?case by simp
next
  case (Cons slot slots)
  obtain c1 c2 where s: "slot = (c1, c2)" by (cases slot)
  from Cons.prems have rest: "(None, None) \<notin> set slots" and ne: "slot \<noteq> (None, None)" by auto
  show ?case
  proof (cases c1)
    case None
    with ne s obtain y where "c2 = Some y" by (cases c2) auto
    with None s Cons.IH [OF rest] show ?thesis by (simp add: is_disjoint_def)
  next
    case (Some x)
    with s Cons.IH [OF rest] show ?thesis by (cases c2) (simp_all add: is_disjoint_def)
  qed
qed

lemma align_slots_match:
  "sorted (map conn_id xs) \<Longrightarrow> sorted (map conn_id ys) \<Longrightarrow>
   v \<in> conn_id ` set xs \<Longrightarrow> v \<in> conn_id ` set ys \<Longrightarrow>
   filter is_match (align_slots xs ys) \<noteq> []"
proof (induction xs ys rule: align_slots.induct)
  case (1 ys)
  then show ?case by simp
next
  case (2 x xs)
  then show ?case by simp
next
  case (3 x xs y ys)
  show ?case
  proof (cases "conn_id x = conn_id y")
    case True
    then show ?thesis by simp
  next
    case False
    show ?thesis
    proof (cases "conn_id x < conn_id y")
      case True
      from "3.prems"(2,4) have "conn_id y \<le> v" by auto
      with True have "v \<noteq> conn_id x" by simp
      with "3.prems"(3) have "v \<in> conn_id ` set xs" by auto
      with "3.IH"(2) [OF False True] "3.prems" False True show ?thesis by simp
    next
      case nlt: False
      from "3.prems"(1,3) have "conn_id x \<le> v" by auto
      with nlt False have "v \<noteq> conn_id y" by simp
      with "3.prems"(4) have "v \<in> conn_id ` set ys" by auto
      with "3.IH"(3) [OF False nlt] "3.prems" False nlt show ?thesis by simp
    qed
  qed
qed

lemma distance_eq_formula:
  assumes "connections self \<noteq> []" "connections other \<noteq> []"
    and m: "filter is_match (align_slots (connections self) (connections other)) \<noteq> []"
  shows "distance self other = Inr (distance_formula self other)"
proof -
  have z: "zip (map fst (align_slots (connections self) (connections other)))
               (map snd (align_slots (connections self) (connections other)))
           = align_slots (connections self) (connections other)"
    by (simp add: zip_map_fst_snd)
  show ?thesis
    using assms(1,2) m
    by (simp add: distance_def distance_formula_def align_connections_def z Let_def
        distance_loop_counts [OF align_slots_not_both_absent] del: set_map)
qed

text \<open>
  Under the precondition of the alignment (both connection sequences sorted by innovation
  identifier) a shared identifier is always aligned in one slot.
\<close>

lemma distance_formula_sorted:
  assumes "connections self \<noteq> []" "connections other \<noteq> []"
    and "sorted (map conn_id (connections self))" "sorted (map conn_id (connections other))"
    and "conn_id ` set (connections self) \<inter> conn_id ` set (connections other) \<noteq> {}"
  shows "distance self other = Inr (distance_formula self other)"
proof -
  from assms(5) obtain v where v: "v \<in> conn_id ` set (connections self)"
      "v \<in> conn_id ` set (connections other)" by auto
  have "filter is_match (align_slots (connections self) (connections other)) \<noteq> []"
    by (rule align_slots_match [OF assms(3,4) v])
  from distance_eq_formula [OF assms(1,2) this] show ?thesis .
qed



lemma split_parent_connections:
  "(case split_parent of None \<Rightarrow> False | Some (g1, g2) \<Rightarrow>
      map conn_id (connections g1) = [1, 2, 3] \<and> map conn_id (connections g2) = [1] \<and>
      map weight (connections g1) = [2, 2, 2] \<and> map weight (connections g2) = [-1] \<and>
      excess_genes_coefficient (config g1) = 1 \<and>
      disjoint_genes_coefficient (config g1) = 1 \<and>
      weight_difference_coefficient (config g1) = 1 / 2)"
  by (simp add: split_parent_def eval_defs add_random_hidden_node_def)



lemma distance_example:
  "(case split_parent of None \<Rightarrow> False | Some (g1, g2) \<Rightarrow> distance g1 g2 = Inr (13 / 6))"
  by (simp add: split_parent_def eval_defs add_random_hidden_node_def distance_def
      align_connections_def)

section \<open>Forward evaluation returns\<close>

lemma same_graph_refl: "same_graph g g"
  by (simp add: same_graph_def)

lemma same_graph_trans: "same_graph a b \<Longrightarrow> same_graph b c \<Longrightarrow> same_graph a c"
  by (simp add: same_graph_def)

lemma evolves_refl: "evolves g g"
  by (simp add: evolves_def same_graph_refl)

lemma evolves_settled:
  "evolves a b \<Longrightarrow> n < length (node_heap a) \<Longrightarrow> settled a n \<Longrightarrow> settled b n"
  unfolding evolves_def same_graph_def settled_def by (metis option.inject)

lemma evolves_trans:
  assumes ab: "evolves a b" and bc: "evolves b c"
  shows "evolves a c"
proof -
  have sg: "same_graph a c"
    using ab bc by (auto simp: evolves_def intro: same_graph_trans)
  have len: "length (node_heap b) = length (node_heap a)"
    using ab by (simp add: evolves_def same_graph_def)
  have act: "activated_nodes a \<noteq> None \<longrightarrow> activated_nodes c \<noteq> None"
    using ab bc by (simp add: evolves_def)
  have marks: "\<forall>i. mark_of c i = mark_of a i \<or> (mark_of a i = Some False \<and> mark_of c i = Some True)"
  proof
    fix i
    from ab have 1: "mark_of b i = mark_of a i \<or> (mark_of a i = Some False \<and> mark_of b i = Some True)"
      by (simp add: evolves_def)
    from bc have 2: "mark_of c i = mark_of b i \<or> (mark_of b i = Some False \<and> mark_of c i = Some True)"
      by (simp add: evolves_def)
    from 1 2 show "mark_of c i = mark_of a i \<or> (mark_of a i = Some False \<and> mark_of c i = Some True)"
      by auto
  qed
  have keep: "\<forall>n < length (node_heap a).
        settled a n \<longrightarrow> activation (node_heap c ! n) = activation (node_heap a ! n)"
  proof (intro allI impI)
    fix n assume n: "n < length (node_heap a)" and s: "settled a n"
    from evolves_settled [OF ab n s] have "settled b n" .
    with bc n len have "activation (node_heap c ! n) = activation (node_heap b ! n)"
      by (simp add: evolves_def)
    moreover from ab n s have "activation (node_heap b ! n) = activation (node_heap a ! n)"
      by (simp add: evolves_def)
    ultimately show "activation (node_heap c ! n) = activation (node_heap a ! n)" by simp
  qed
  from sg act marks keep show ?thesis unfolding evolves_def by blast
qed

lemma evolves_ready:
  assumes "evolves a b" "process_ready a"
  shows "process_ready b"
proof -
  from assms(1) have sg: "same_graph a b" by (simp add: evolves_def)
  from assms(1) have marks: "\<And>i. mark_of a i \<noteq> None \<Longrightarrow> mark_of b i \<noteq> None"
    unfolding evolves_def by (metis option.distinct(1))
  from assms sg marks show ?thesis
    unfolding process_ready_def same_graph_def evolves_def by simp
qed

lemma finite_unmarked: "finite (unmarked g)"
  by (simp add: unmarked_def)

lemma evolves_unmarked:
  assumes "evolves a b"
  shows "unmarked b \<subseteq> unmarked a"
proof
  fix n assume "n \<in> unmarked b"
  then have n: "n < length (node_heap b)" and m: "mark_of b (id_of b n) = Some False"
    by (simp_all add: unmarked_def)
  from assms n have na: "n < length (node_heap a)" and i: "id_of b n = id_of a n"
    by (simp_all add: evolves_def same_graph_def)
  from assms have "mark_of b (id_of a n) = mark_of a (id_of a n) \<or>
      (mark_of a (id_of a n) = Some False \<and> mark_of b (id_of a n) = Some True)"
    by (simp add: evolves_def)
  with m i have "mark_of a (id_of a n) = Some False" by auto
  with na show "n \<in> unmarked a" by (simp add: unmarked_def)
qed

lemma evolves_card:
  "evolves a b \<Longrightarrow> card (unmarked b) \<le> card (unmarked a)"
  by (simp add: card_mono finite_unmarked evolves_unmarked)

lemma mark_step:
  assumes act: "activated_nodes g = Some act" and n: "n < length (node_heap g)"
    and m: "act (id_of g n) = Some False"
  defines "g1 \<equiv> g\<lparr> activated_nodes := Some (act(id_of g n \<mapsto> True)) \<rparr>"
  shows "evolves g g1" and "card (unmarked g1) < card (unmarked g)"
    and "mark_of g1 (id_of g n) = Some True"
proof -
  have ids: "\<And>k. id_of g1 k = id_of g k" "\<And>k. type_of g1 k = type_of g k"
    by (simp_all add: g1_def id_of_def type_of_def)
  show ev: "evolves g g1"
    unfolding evolves_def same_graph_def
    using act m by (auto simp: g1_def id_of_def type_of_def mark_of_def)
  show t: "mark_of g1 (id_of g n) = Some True"
    by (simp add: g1_def mark_of_def)
  have "n \<in> unmarked g" using act n m by (simp add: unmarked_def mark_of_def)
  moreover have "n \<notin> unmarked g1" using t by (simp add: unmarked_def ids)
  ultimately have "unmarked g1 \<subset> unmarked g"
    using evolves_unmarked [OF ev] by auto
  then show "card (unmarked g1) < card (unmarked g)"
    by (simp add: psubset_card_mono finite_unmarked)
qed

lemma activate_step:
  assumes ev: "evolves g g2" and n: "n < length (node_heap g)" and ns: "\<not> settled g n"
  shows "evolves g (activate_node g2 n z)"
proof -
  let ?g3 = "activate_node g2 n z"
  from ev have len: "length (node_heap g2) = length (node_heap g)"
    by (simp add: evolves_def same_graph_def)
  have marks: "\<And>i. mark_of ?g3 i = mark_of g2 i"
    by (simp add: activate_node_def mark_of_def)
  have nodes: "\<And>k. k < length (node_heap g) \<Longrightarrow>
      id_of ?g3 k = id_of g2 k \<and> type_of ?g3 k = type_of g2 k \<and>
      in_connections (node_heap ?g3 ! k) = in_connections (node_heap g2 ! k) \<and>
      (k \<noteq> n \<longrightarrow> activation (node_heap ?g3 ! k) = activation (node_heap g2 ! k))"
    using len n by (auto simp: activate_node_def id_of_def type_of_def activate_def nth_list_update)
  have other: "connections ?g3 = connections g2" "length (node_heap ?g3) = length (node_heap g2)"
    "activated_nodes ?g3 = activated_nodes g2"
    by (simp_all add: activate_node_def)
  have keep: "\<forall>k < length (node_heap g).
        settled g k \<longrightarrow> activation (node_heap ?g3 ! k) = activation (node_heap g ! k)"
  proof (intro allI impI)
    fix k assume k: "k < length (node_heap g)" and s: "settled g k"
    with ns have "k \<noteq> n" by auto
    with nodes [OF k] have "activation (node_heap ?g3 ! k) = activation (node_heap g2 ! k)" by simp
    moreover from ev k s have "activation (node_heap g2 ! k) = activation (node_heap g ! k)"
      by (simp add: evolves_def)
    ultimately show "activation (node_heap ?g3 ! k) = activation (node_heap g ! k)" by simp
  qed
  from ev have sg: "same_graph g g2" by (simp add: evolves_def)
  have sg3: "same_graph g ?g3"
    unfolding same_graph_def using sg nodes other by (simp add: same_graph_def)
  from ev have a: "activated_nodes g \<noteq> None \<longrightarrow> activated_nodes ?g3 \<noteq> None"
    by (simp add: evolves_def other)
  from ev have m: "\<forall>i. mark_of ?g3 i = mark_of g i \<or>
      (mark_of g i = Some False \<and> mark_of ?g3 i = Some True)"
    by (simp add: evolves_def marks)
  from sg3 a m keep show ?thesis unfolding evolves_def by blast
qed

lemma sum_inputs_total:
  assumes P: "node_total fuel"
  shows "process_ready g \<Longrightarrow> \<forall>k \<in> set ks. k < length (connections g) \<Longrightarrow>
         card (unmarked g) < fuel \<Longrightarrow>
         \<exists>z g'. sum_inputs fuel g ks zsum = Some (Inr z, g') \<and> evolves g g'"
proof (induction ks arbitrary: g zsum)
  case Nil
  show ?case by (simp add: evolves_refl)
next
  case (Cons k ks)
  show ?case
  proof (cases "enabled (connections g ! k)")
    case False
    with Cons.IH [OF Cons.prems(1) _ Cons.prems(3)] Cons.prems(2) show ?thesis by simp
  next
    case True
    from Cons.prems(2) have kl: "k < length (connections g)" by simp
    with Cons.prems(1) have src: "from_node (connections g ! k) < length (node_heap g)"
      by (simp add: process_ready_def)
    from P Cons.prems(1,3) src obtain a g1 where
      pn: "process_node fuel g (from_node (connections g ! k)) = Some (Inr a, g1)"
      and ev: "evolves g g1"
      unfolding node_total_def by blast
    from evolves_ready [OF ev Cons.prems(1)] have r1: "process_ready g1" .
    from ev have c1: "connections g1 = connections g" by (simp add: evolves_def same_graph_def)
    from evolves_card [OF ev] Cons.prems(3) have card1: "card (unmarked g1) < fuel" by simp
    from Cons.prems(2) c1 have ks1: "\<forall>k \<in> set ks. k < length (connections g1)" by simp
    from Cons.IH [OF r1 ks1 card1, of "zsum + weight (connections g ! k) * a"]
    obtain z g2 where si: "sum_inputs fuel g1 ks (zsum + weight (connections g ! k) * a) = Some (Inr z, g2)"
      and ev2: "evolves g1 g2" by blast
    from True pn si evolves_trans [OF ev ev2] show ?thesis by simp
  qed
qed

lemma node_total_Suc:
  assumes P: "node_total fuel"
  shows "node_total (Suc fuel)"
  unfolding node_total_def
proof (intro allI impI)
  fix g n
  assume r: "process_ready g" and n: "n < length (node_heap g)"
    and c: "card (unmarked g) < Suc fuel"
  show "\<exists>a g'. process_node (Suc fuel) g n = Some (Inr a, g') \<and> evolves g g' \<and>
                 a = activation (node_heap g' ! n) \<and> settled g' n"
  proof (cases "type_of g n \<noteq> INPUT \<and> type_of g n \<noteq> BIAS")
    case False
    then show ?thesis by (auto simp: evolves_refl settled_def)
  next
    case True
    from r obtain act where act: "activated_nodes g = Some act"
      by (auto simp: process_ready_def)
    from r n True act obtain b where b: "act (id_of g n) = Some b"
      by (auto simp: process_ready_def mark_of_def)
    show ?thesis
    proof (cases b)
      case True
      with \<open>type_of g n \<noteq> INPUT \<and> type_of g n \<noteq> BIAS\<close> act b show ?thesis
        by (simp add: evolves_refl settled_def mark_of_def)
    next
      case False
      with b have m: "act (id_of g n) = Some False" by simp
      let ?g1 = "g\<lparr> activated_nodes := Some (act(id_of g n \<mapsto> True)) \<rparr>"
      note ms = mark_step [OF act n m]
      from evolves_ready [OF ms(1) r] have r1: "process_ready ?g1" .
      from ms(2) c have c1: "card (unmarked ?g1) < fuel" by simp
      from r n have ks: "\<forall>k \<in> set (in_connections (node_heap g ! n)). k < length (connections ?g1)"
        by (simp add: process_ready_def)
      from sum_inputs_total [OF P r1 ks c1, of 0] obtain z g2 where
        si: "sum_inputs fuel ?g1 (in_connections (node_heap g ! n)) 0 = Some (Inr z, g2)"
        and ev2: "evolves ?g1 g2" by blast
      have ev: "evolves g g2" by (rule evolves_trans [OF ms(1) ev2])
      have ns: "\<not> settled g n"
        using \<open>type_of g n \<noteq> INPUT \<and> type_of g n \<noteq> BIAS\<close> act m
        by (simp add: settled_def mark_of_def)
      let ?g3 = "activate_node g2 n z"
      have ev3: "evolves g ?g3" by (rule activate_step [OF ev n ns])
      from ev2 have "mark_of g2 (id_of g n) = mark_of ?g1 (id_of g n) \<or>
          (mark_of ?g1 (id_of g n) = Some False \<and> mark_of g2 (id_of g n) = Some True)"
        by (simp add: evolves_def)
      with ms(3) have "mark_of g2 (id_of g n) = Some True" by auto
      then have m3: "mark_of ?g3 (id_of g n) = Some True"
        by (simp add: activate_node_def mark_of_def)
      from ev3 n have "id_of ?g3 n = id_of g n" by (simp add: evolves_def same_graph_def)
      with m3 have st: "settled ?g3 n" by (simp add: settled_def)
      from \<open>type_of g n \<noteq> INPUT \<and> type_of g n \<noteq> BIAS\<close> act m si ev3 st show ?thesis
        by simp
    qed
  qed
qed

lemma node_total_all: "node_total fuel"
proof (induction fuel)
  case 0
  show ?case by (simp add: node_total_def)
next
  case (Suc fuel)
  then show ?case by (rule node_total_Suc)
qed

lemma process_outputs_total:
  "process_ready g \<Longrightarrow> \<forall>n \<in> set outs. n < length (node_heap g) \<Longrightarrow>
   card (unmarked g) < fuel \<Longrightarrow>
   \<exists>h g'. process_outputs fuel g outs = Some (Inr h, g') \<and> evolves g g' \<and>
           h = map (\<lambda>n. activation (node_heap g' ! n)) outs"
proof (induction outs arbitrary: g)
  case Nil
  show ?case by (simp add: evolves_refl)
next
  case (Cons out_node outs)
  from Cons.prems(2) have o: "out_node < length (node_heap g)" by simp
  from node_total_all [of fuel] Cons.prems(1,3) o obtain a g1 where
    pn: "process_node fuel g out_node = Some (Inr a, g1)" and ev: "evolves g g1"
    and a: "a = activation (node_heap g1 ! out_node)" and st: "settled g1 out_node"
    unfolding node_total_def by blast
  from ev have len: "length (node_heap g1) = length (node_heap g)"
    by (simp add: evolves_def same_graph_def)
  from evolves_ready [OF ev Cons.prems(1)] have r1: "process_ready g1" .
  from evolves_card [OF ev] Cons.prems(3) have c1: "card (unmarked g1) < fuel" by simp
  from Cons.prems(2) len have o1: "\<forall>n \<in> set outs. n < length (node_heap g1)" by simp
  from Cons.IH [OF r1 o1 c1] obtain h g2 where
    po: "process_outputs fuel g1 outs = Some (Inr h, g2)" and ev2: "evolves g1 g2"
    and h: "h = map (\<lambda>n. activation (node_heap g2 ! n)) outs" by blast
  from ev2 st o len have "activation (node_heap g2 ! out_node) = activation (node_heap g1 ! out_node)"
    by (simp add: evolves_def)
  with a h pn po evolves_trans [OF ev ev2] show ?case by simp
qed

lemma activate_node_same_nodes: "same_nodes g (activate_node g n x)"
proof (cases "n < length (node_heap g)")
  case True
  then show ?thesis
    by (auto simp: same_nodes_def same_graph_def activate_node_def id_of_def type_of_def
        activate_def nth_list_update)
next
  case False
  then show ?thesis
    by (simp add: same_nodes_def same_graph_def activate_node_def id_of_def type_of_def)
qed

lemma same_nodes_trans: "same_nodes a b \<Longrightarrow> same_nodes b c \<Longrightarrow> same_nodes a c"
  by (auto simp: same_nodes_def intro: same_graph_trans)

lemma fold_activate_same_nodes:
  "same_nodes g (fold (\<lambda>(n, x) g'. activate_node g' n x) ps g)"
proof (induction ps arbitrary: g)
  case Nil
  show ?case by (simp add: same_nodes_def same_graph_refl)
next
  case (Cons p ps)
  obtain n x where p: "p = (n, x)" by (cases p)
  from same_nodes_trans [OF activate_node_same_nodes [of g n x] Cons.IH [of "activate_node g n x"]] p
  show ?case by simp
qed

lemma feed_inputs_same_nodes: "same_nodes g (feed_inputs g X)"
  by (simp add: feed_inputs_def fold_activate_same_nodes)

lemma fold_mark_False:
  "fold (\<lambda>n m. m(f n \<mapsto> False)) ns m0 i = (if i \<in> f ` set ns then Some False else m0 i)"
  by (induction ns arbitrary: m0) auto

lemma mark_of_reset_activated:
  "mark_of (reset_activated g) i =
     (if i \<in> id_of g ` set (output_nodes g @ hidden_nodes g) then Some False else None)"
  by (simp add: reset_activated_def mark_of_def fold_mark_False del: fold_append set_append)

lemma reset_activated_fields:
  "node_heap (reset_activated g) = node_heap g" "connections (reset_activated g) = connections g"
  "id_of (reset_activated g) n = id_of g n" "type_of (reset_activated g) n = type_of g n"
  "activated_nodes (reset_activated g) \<noteq> None"
  by (simp_all add: reset_activated_def id_of_def type_of_def)

lemma wf_node_listed:
  assumes wf: "wf_genome g" and n: "n < length (node_heap g)"
    and t: "type_of g n \<noteq> INPUT" "type_of g n \<noteq> BIAS"
  shows "n \<in> set (output_nodes g @ hidden_nodes g)"
proof -
  from wf n have "n \<in> set (nodes g)" by (simp add: wf_genome_def)
  moreover from wf have "\<forall>m \<in> set (input_nodes g). type_of g m = INPUT"
    "\<forall>m \<in> set_option (bias_node g). type_of g m = BIAS"
    by (simp_all add: wf_genome_def)
  ultimately show ?thesis using t
    by (auto simp: nodes_def split: option.splits)
qed

lemma wf_process_ready:
  assumes wf: "wf_genome g"
  shows "process_ready (reset_activated (feed_inputs g X))"
proof -
  let ?f = "feed_inputs g X"
  from feed_inputs_same_nodes [of g X] have sg: "same_graph g ?f"
    and lists: "output_nodes ?f = output_nodes g" "hidden_nodes ?f = hidden_nodes g"
    by (simp_all add: same_nodes_def)
  from sg have len: "length (node_heap ?f) = length (node_heap g)"
    and conns: "connections ?f = connections g"
    and nodes: "\<And>n. n < length (node_heap g) \<Longrightarrow>
        id_of ?f n = id_of g n \<and> type_of ?f n = type_of g n \<and>
        in_connections (node_heap ?f ! n) = in_connections (node_heap g ! n)"
    by (simp_all add: same_graph_def)
  have a: "\<forall>n < length (node_heap ?f). \<forall>k \<in> set (in_connections (node_heap ?f ! n)).
        k < length (connections ?f)"
    using wf_in_connections(1) [OF wf] len conns nodes by simp
  have b: "\<forall>c \<in> set (connections ?f). from_node c < length (node_heap ?f)"
    using wf len conns by (simp add: wf_genome_def)
  have c: "\<forall>n < length (node_heap ?f).
        type_of ?f n \<noteq> INPUT \<and> type_of ?f n \<noteq> BIAS \<longrightarrow>
        mark_of (reset_activated ?f) (id_of ?f n) \<noteq> None"
  proof (intro allI impI)
    fix n assume n: "n < length (node_heap ?f)"
      and t: "type_of ?f n \<noteq> INPUT \<and> type_of ?f n \<noteq> BIAS"
    from n len have ng: "n < length (node_heap g)" by simp
    from t nodes [OF ng] have "type_of g n \<noteq> INPUT" "type_of g n \<noteq> BIAS" by simp_all
    from wf_node_listed [OF wf ng this] lists
    have "n \<in> set (output_nodes ?f @ hidden_nodes ?f)" by simp
    then have "id_of ?f n \<in> id_of ?f ` set (output_nodes ?f @ hidden_nodes ?f)" by (rule imageI)
    then show "mark_of (reset_activated ?f) (id_of ?f n) \<noteq> None"
      by (simp add: mark_of_reset_activated del: set_append)
  qed
  from a b c show ?thesis
    unfolding process_ready_def by (simp add: reset_activated_fields)
qed

lemma card_unmarked_le: "card (unmarked g) \<le> length (node_heap g)"
proof -
  have "unmarked g \<subseteq> {..< length (node_heap g)}" by (auto simp: unmarked_def)
  from card_mono [OF _ this] show ?thesis by simp
qed

text \<open>
  Claim C9. For a well-formed genome, \<^verbatim>\<open>process\<close> fails with the invalid-input
  condition (the failed assertion) if and only if the length of the input differs from
  the number of input nodes; on an input of the right length it returns, for every
  recursion bound above the number of node objects, a vector with one activation per
  output node, in the order of the output nodes: the activations the output nodes have
  when the call returns.
\<close>

theorem process_returns:
  assumes wf: "wf_genome g" and fuel: "length (node_heap g) < fuel"
  shows "((\<exists>g'. process fuel g X = Some (Inl AssertionError, g')) \<longleftrightarrow>
            length X \<noteq> length (input_nodes g)) \<and>
         (length X = length (input_nodes g) \<longrightarrow>
            (\<exists>h g'. process fuel g X = Some (Inr h, g') \<and>
                     length h = length (output_nodes g) \<and>
                     h = map (\<lambda>n. activation (node_heap g' ! n)) (output_nodes g)))"
proof -
  let ?g0 = "reset_activated (feed_inputs g X)"
  from feed_inputs_same_nodes [of g X] have len: "length (node_heap ?g0) = length (node_heap g)"
    by (simp add: same_nodes_def same_graph_def reset_activated_fields)
  from wf len have outs: "\<forall>n \<in> set (output_nodes g). n < length (node_heap ?g0)"
    by (simp add: wf_genome_def)
  from card_unmarked_le [of ?g0] len fuel have c: "card (unmarked ?g0) < fuel" by simp
  from process_outputs_total [OF wf_process_ready [OF wf] outs c] obtain h g' where
    po: "process_outputs fuel ?g0 (output_nodes g) = Some (Inr h, g')"
    and h: "h = map (\<lambda>n. activation (node_heap g' ! n)) (output_nodes g)" by blast
  from po h show ?thesis by (auto simp: process_def)
qed

lemma example_parent_lists:
  "(case two_parents True 0 of None \<Rightarrow> False | Some (g1, g2, h, r) \<Rightarrow>
      length (input_nodes g1) = 1 \<and> length (output_nodes g1) = 1)"
  by (simp add: eval_defs)

theorem process_returns_witness:
  "(case two_parents True 0 of
      None \<Rightarrow> False
    | Some (g1, g2, h, r) \<Rightarrow>
        wf_genome g1 \<and> length (node_heap g1) < 4 \<and>
        length [7 :: real] = length (input_nodes g1) \<and>
        (\<exists>h g'. process 4 g1 [7] = Some (Inr h, g') \<and> length h = length (output_nodes g1) \<and>
                 h = map (\<lambda>n. activation (node_heap g' ! n)) (output_nodes g1)) \<and>
        length [7 :: real, 8] \<noteq> length (input_nodes g1) \<and>
        (\<exists>g'. process 4 g1 [7, 8] = Some (Inl AssertionError, g')))"
proof -
  obtain g1 g2 h r where p: "two_parents True 0 = Some (g1, g2, h, r)"
    using example_parent_wf by (cases "two_parents True 0") auto
  have wf: "wf_genome g1" and len: "length (node_heap g1) < 4"
    using example_parent_wf p by simp_all
  have l: "length (input_nodes g1) = 1"
    using example_parent_lists p by simp
  from process_returns [OF wf len, of "[7]"] process_returns [OF wf len, of "[7, 8]"]
    p wf len l show ?thesis by simp
qed

section \<open>Crossover never duplicates a connection\<close>

lemma init_input_nodes_built:
  "built a 0 0 g \<Longrightarrow>
   built (a + k) 0 0 (fst (init_input_nodes k (g, int a))) \<and>
   snd (init_input_nodes k (g, int a)) = int (a + k) \<and>
   config (fst (init_input_nodes k (g, int a))) = config g \<and>
   output_activation (fst (init_input_nodes k (g, int a))) = output_activation g"
proof (induction k arbitrary: g a)
  case 0
  then show ?case by simp
next
  case (Suc k)
  let ?n = "NodeGene (int a) INPUT linear (initial_node_activation (config g))"
  let ?g = "g\<lparr> node_heap := node_heap g @ [?n], input_nodes := input_nodes g @ [length (node_heap g)] \<rparr>"
  from Suc.prems have b: "built (Suc a) 0 0 ?g"
    by (auto simp: built_def id_of_def type_of_def nth_append NodeGene_def less_Suc_eq)
  from Suc.IH [OF b] show ?case
    by (simp add: new_node_def ac_simps)
qed

lemma init_output_nodes_built:
  "built a b c g \<Longrightarrow>
   (\<exists>g'. init_output_nodes k False (g, int (a + b + c), h, r) = Inr (g', int (a + b + c + k), h, r) \<and>
         built a b (c + k) g' \<and> config g' = config g)"
proof (induction k arbitrary: g c)
  case 0
  then show ?case by simp
next
  case (Suc k)
  let ?n = "NodeGene (int (a + b + c)) OUTPUT (output_activation g) (initial_node_activation (config g))"
  let ?g = "g\<lparr> node_heap := node_heap g @ [?n], output_nodes := output_nodes g @ [length (node_heap g)] \<rparr>"
  from Suc.prems have bl: "built a b (Suc c) ?g"
    by (auto simp: built_def id_of_def type_of_def nth_append NodeGene_def less_Suc_eq)
  from Suc.IH [OF bl] obtain g' where
    "init_output_nodes k False (?g, int (a + b + Suc c), h, r) = Inr (g', int (a + b + Suc c + k), h, r)"
    "built a b (Suc c + k) g'" "config g' = config ?g" by blast
  then show ?case
    by (simp add: new_node_def ac_simps)
qed

lemma Genome_built:
  "\<exists>g h'. Genome (int ni) (int no) h cfg gid False r = Inr (g, h', r) \<and>
      built ni (if bias_value cfg = None then 0 else 1) no g \<and> config g = cfg"
proof -
  obtain i h0 where gid: "(case gid of Some i \<Rightarrow> (i, h) | None \<Rightarrow> next_genome_id h) = (i, h0)"
    by (cases "case gid of Some i \<Rightarrow> (i, h) | None \<Rightarrow> next_genome_id h")
  let ?g0 = "\<lparr> genome_id = i, species_id = None, fitness = 0, adj_fitness = 0,
                     node_heap = [], input_nodes = [], hidden_nodes = [], output_nodes = [],
                     bias_node = None, connections = [], config = cfg,
                     output_activation = out_nodes_activation cfg,
                     hidden_activation = hidden_nodes_activation cfg,
                     activated_nodes = None \<rparr>"
  have b0: "built 0 0 0 ?g0" by (simp add: built_def)
  obtain g1 c1 where i1: "init_input_nodes ni (?g0, 0) = (g1, c1)"
    by (cases "init_input_nodes ni (?g0, 0)")
  from init_input_nodes_built [OF b0, of ni] i1
  have b1: "built ni 0 0 g1" and c1: "c1 = int ni" and cf1: "config g1 = cfg" by simp_all
  show ?thesis
  proof (cases "bias_value cfg")
    case None
    from init_output_nodes_built [OF b1, of no h0 r] obtain g' where
      "init_output_nodes no False (g1, int ni, h0, r) = Inr (g', int (ni + no), h0, r)"
      "built ni 0 no g'" "config g' = config g1" by auto
    with None gid i1 c1 cf1 show ?thesis
      by (simp add: Genome_def ac_simps)
  next
    case (Some bv)
    let ?g2 = "g1\<lparr> node_heap := node_heap g1 @ [NodeGene (int ni) BIAS linear bv],
                    bias_node := Some (length (node_heap g1)) \<rparr>"
    from b1 have b2: "built ni 1 0 ?g2"
      by (auto simp: built_def id_of_def type_of_def nth_append NodeGene_def less_Suc_eq)
    from init_output_nodes_built [OF b2, of no h0 r] obtain g' where
      "init_output_nodes no False (?g2, int (ni + 1), h0, r) = Inr (g', int (ni + 1 + no), h0, r)"
      "built ni 1 no g'" "config g' = config ?g2" by auto
    moreover from b1 have "length (node_heap g1) = ni" by (simp add: built_def)
    ultimately show ?thesis using Some gid i1 c1 cf1
      by (simp add: Genome_def new_node_def ac_simps)
  qed
qed

lemma fold_added_other:
  "i \<notin> f ` set ns \<Longrightarrow> fold (\<lambda>n m. m(f n \<mapsto> n)) ns m0 i = m0 i"
  by (induction ns arbitrary: m0) auto

lemma fold_added_member:
  "inj_on f (set ns) \<Longrightarrow> n \<in> set ns \<Longrightarrow> fold (\<lambda>n m. m(f n \<mapsto> n)) ns m0 (f n) = Some n"
proof (induction ns arbitrary: m0)
  case Nil
  then show ?case by simp
next
  case (Cons x xs)
  show ?case
  proof (cases "n \<in> set xs")
    case True
    from Cons.prems(1) have "inj_on f (set xs)" by (simp add: inj_on_def)
    from Cons.IH [OF this True] show ?thesis by simp
  next
    case False
    with Cons.prems(2) have nx: "n = x" by simp
    with False Cons.prems(1) have nin: "f x \<notin> f ` set xs" by (auto simp: inj_on_def)
    have "fold (\<lambda>n m. m(f n \<mapsto> n)) (x # xs) m0 (f n) =
          fold (\<lambda>n m. m(f n \<mapsto> n)) xs (m0(f x \<mapsto> x)) (f x)"
      by (simp add: nx)
    also have "\<dots> = (m0(f x \<mapsto> x)) (f x)"
      by (rule fold_added_other [OF nin])
    also have "\<dots> = Some n" by (simp add: nx)
    finally show ?thesis .
  qed
qed

lemma fold_added_Some:
  "fold (\<lambda>n m. m(f n \<mapsto> n)) ns m0 i = Some n \<Longrightarrow> (n \<in> set ns \<and> f n = i) \<or> m0 i = Some n"
proof (induction ns arbitrary: m0)
  case Nil
  then show ?case by simp
next
  case (Cons x xs)
  from Cons.IH [of "m0(f x \<mapsto> x)"] Cons.prems show ?case
    by (auto split: if_splits)
qed

lemma built_nodes: "built a b c g \<Longrightarrow> b \<le> 1 \<Longrightarrow> set (nodes g) = {..< a + b + c}"
  by (auto simp: built_def nodes_def split: if_splits)

lemma built_layout:
  assumes "built ni b no g" "b \<le> 1" "n < ni + b + no"
  shows "type_of g n = layout_type ni (b \<noteq> 0) no (int n)"
  using assms by (auto simp: built_def layout_type_def)

lemma layout_type_base:
  "b \<le> 1 \<Longrightarrow> layout_type ni (b \<noteq> 0) no i \<noteq> HIDDEN \<Longrightarrow> 0 \<le> i \<and> i < int (ni + b + no)"
  by (auto simp: layout_type_def split: if_splits)

lemma built_offspring_inv:
  assumes b: "built ni b no g" and b1: "b \<le> 1"
  shows "offspring_inv ni (b \<noteq> 0) no g (added_nodes_init g)"
proof -
  let ?L = "ni + b + no"
  from b have len: "length (node_heap g) = ?L" and ids: "\<And>n. n < ?L \<Longrightarrow> id_of g n = int n"
    and conns: "connections g = []"
    by (simp_all add: built_def)
  from built_nodes [OF b b1] have ns: "set (nodes g) = {..< ?L}" .
  have inj: "inj_on (id_of g) (set (nodes g))"
    unfolding ns by (rule inj_onI) (simp add: ids)
  have 1: "\<forall>n < length (node_heap g). added_nodes_init g (id_of g n) = Some n"
    using fold_added_member [OF inj] ns len by (simp add: added_nodes_init_def)
  have 2: "\<forall>i n. added_nodes_init g i = Some n \<longrightarrow> n < length (node_heap g) \<and> id_of g n = i"
    using fold_added_Some [of "id_of g" "nodes g" Map.empty] ns len
    by (auto simp: added_nodes_init_def)
  have 5: "\<forall>n < length (node_heap g). type_of g n = layout_type ni (b \<noteq> 0) no (id_of g n)"
    using built_layout [OF b b1] len ids by simp
  have 6: "\<forall>i. layout_type ni (b \<noteq> 0) no i \<noteq> HIDDEN \<longrightarrow> added_nodes_init g i \<noteq> None"
  proof (intro allI impI)
    fix i assume "layout_type ni (b \<noteq> 0) no i \<noteq> HIDDEN"
    from layout_type_base [OF b1 this] have i: "0 \<le> i" "i < int ?L" by simp_all
    then have "nat i < length (node_heap g)" using len by simp
    with 1 have "added_nodes_init g (id_of g (nat i)) = Some (nat i)" by simp
    moreover from i have "id_of g (nat i) = i" using ids [of "nat i"] by simp
    ultimately show "added_nodes_init g i \<noteq> None" by simp
  qed
  from 1 2 5 6 conns show ?thesis
    unfolding offspring_inv_def no_duplicate_connections_def by simp
qed

lemma offspring_invD:
  assumes "offspring_inv ni bb no g added"
  shows "\<And>n. n < length (node_heap g) \<Longrightarrow> added (id_of g n) = Some n"
    and "\<And>i n. added i = Some n \<Longrightarrow> n < length (node_heap g) \<and> id_of g n = i"
    and "\<And>k. k < length (connections g) \<Longrightarrow>
        from_node (connections g ! k) < length (node_heap g) \<and>
        to_node (connections g ! k) < length (node_heap g) \<and>
        k \<in> set (out_connections (node_heap g ! from_node (connections g ! k)))"
    and "no_duplicate_connections g"
    and "\<And>n. n < length (node_heap g) \<Longrightarrow> type_of g n = layout_type ni bb no (id_of g n)"
    and "\<And>i. layout_type ni bb no i \<noteq> HIDDEN \<Longrightarrow> added i \<noteq> None"
  using assms unfolding offspring_inv_def by blast+

lemma pair_ids_cong:
  assumes "\<And>k. k < length (connections g) \<Longrightarrow>
        from_node (connections g ! k) < length (node_heap g) \<and>
        to_node (connections g ! k) < length (node_heap g)"
    and "\<And>n. n < length (node_heap g) \<Longrightarrow> id_of g' n = id_of g n"
  shows "map (pair_ids g') (connections g) = map (pair_ids g) (connections g)"
proof (rule map_cong [OF refl])
  fix c assume "c \<in> set (connections g)"
  then obtain k where "k < length (connections g)" "connections g ! k = c"
    by (auto simp: in_set_conv_nth)
  with assms(1) [of k] assms(2) show "pair_ids g' c = pair_ids g c"
    by (auto simp: pair_ids_def)
qed

lemma add_hidden_inv:
  assumes inv: "offspring_inv ni bb no g added"
    and pl: "type_of p n = layout_type ni bb no (id_of p n)"
  shows "offspring_inv ni bb no (fst (add_hidden p n (g, added))) (snd (add_hidden p n (g, added)))"
    and "snd (add_hidden p n (g, added)) (id_of p n) \<noteq> None"
    and "\<And>i. added i \<noteq> None \<Longrightarrow> snd (add_hidden p n (g, added)) i = added i"
proof -
  note D = offspring_invD [OF inv]
  let ?L = "length (node_heap g)"
  let ?i = "id_of p n"
  let ?g' = "g\<lparr> node_heap := node_heap g @ [shallow_copy_node (node_heap p ! n)],
                  hidden_nodes := hidden_nodes g @ [?L] \<rparr>"
  let ?a' = "added(?i \<mapsto> ?L)"
  show "offspring_inv ni bb no (fst (add_hidden p n (g, added))) (snd (add_hidden p n (g, added)))"
  proof (cases "type_of p n = HIDDEN \<and> added ?i = None")
    case False
    then have "add_hidden p n (g, added) = (g, added)"
      by (auto simp: add_hidden_def)
    with inv show ?thesis by simp
  next
    case True
    have old: "\<And>m. m < ?L \<Longrightarrow> id_of ?g' m = id_of g m \<and> type_of ?g' m = type_of g m \<and>
        out_connections (node_heap ?g' ! m) = out_connections (node_heap g ! m)"
      by (simp add: id_of_def type_of_def nth_append)
    have new: "id_of ?g' ?L = ?i" "type_of ?g' ?L = HIDDEN"
      using True by (simp_all add: id_of_def type_of_def shallow_copy_node_def NodeGene_def)
    have 1: "\<forall>m < length (node_heap ?g'). ?a' (id_of ?g' m) = Some m"
    proof (intro allI impI)
      fix m assume "m < length (node_heap ?g')"
      then consider "m < ?L" | "m = ?L" by fastforce
      then show "?a' (id_of ?g' m) = Some m"
      proof cases
        case 1
        from D(1) [OF 1] True have "id_of g m \<noteq> ?i" by auto
        with D(1) [OF 1] old [OF 1] show ?thesis by simp
      next
        case 2
        with new show ?thesis by simp
      qed
    qed
    have 2: "\<forall>i m. ?a' i = Some m \<longrightarrow> m < length (node_heap ?g') \<and> id_of ?g' m = i"
    proof (intro allI impI)
      fix i m assume a: "?a' i = Some m"
      show "m < length (node_heap ?g') \<and> id_of ?g' m = i"
      proof (cases "i = ?i")
        case True
        with a new show ?thesis by simp
      next
        case False
        with a have "added i = Some m" by simp
        from D(2) [OF this] old [of m] show ?thesis by simp
      qed
    qed
    have 3: "\<forall>k < length (connections ?g').
        from_node (connections ?g' ! k) < length (node_heap ?g') \<and>
        to_node (connections ?g' ! k) < length (node_heap ?g') \<and>
        k \<in> set (out_connections (node_heap ?g' ! from_node (connections ?g' ! k)))"
    proof (intro allI impI)
      fix k assume "k < length (connections ?g')"
      then have k: "k < length (connections g)" by simp
      from D(3) [OF k] old [of "from_node (connections g ! k)"]
      show "from_node (connections ?g' ! k) < length (node_heap ?g') \<and>
        to_node (connections ?g' ! k) < length (node_heap ?g') \<and>
        k \<in> set (out_connections (node_heap ?g' ! from_node (connections ?g' ! k)))"
        by simp
    qed
    have c: "connections ?g' = connections g" by simp
    have eq: "map (pair_ids ?g') (connections g) = map (pair_ids g) (connections g)"
      by (rule pair_ids_cong) (use D(3) old in auto)
    have 4: "no_duplicate_connections ?g'"
      unfolding no_duplicate_connections_def c eq
      using D(4) by (simp only: no_duplicate_connections_def)
    have 5: "\<forall>m < length (node_heap ?g'). type_of ?g' m = layout_type ni bb no (id_of ?g' m)"
    proof (intro allI impI)
      fix m assume "m < length (node_heap ?g')"
      then consider "m < ?L" | "m = ?L" by fastforce
      then show "type_of ?g' m = layout_type ni bb no (id_of ?g' m)"
      proof cases
        case 1
        with D(5) [OF 1] old [OF 1] show ?thesis by simp
      next
        case 2
        with new pl True show ?thesis by simp
      qed
    qed
    have 6: "\<forall>i. layout_type ni bb no i \<noteq> HIDDEN \<longrightarrow> ?a' i \<noteq> None"
      using D(6) by simp
    from 1 2 3 4 5 6 have "offspring_inv ni bb no ?g' ?a'"
      unfolding offspring_inv_def by blast
    with True show ?thesis by (simp add: add_hidden_def new_node_def)
  qed
  show "snd (add_hidden p n (g, added)) ?i \<noteq> None"
  proof (cases "type_of p n = HIDDEN")
    case True
    then show ?thesis by (simp add: add_hidden_def new_node_def)
  next
    case False
    with pl D(6) [of ?i] show ?thesis by (simp add: add_hidden_def)
  qed
  show "\<And>i. added i \<noteq> None \<Longrightarrow> snd (add_hidden p n (g, added)) i = added i"
    by (auto simp: add_hidden_def new_node_def)
qed

lemma add_connection_success:
  assumes ne: "\<not> connection_exists g s d"
    and ty: "type_of g d \<noteq> BIAS" "type_of g d \<noteq> INPUT"
    and s: "s < length (node_heap g)" and d: "d < length (node_heap g)"
  shows "\<exists>g'. add_connection g h r s d en (Some cid) (Some w) = (None, g', h, r) \<and>
      connections g' = connections g @
        [\<lparr> conn_id = cid, from_node = s, to_node = d, weight = w, enabled = en \<rparr>] \<and>
      length (node_heap g') = length (node_heap g) \<and>
      (\<forall>n < length (node_heap g).
         id_of g' n = id_of g n \<and> type_of g' n = type_of g n \<and>
         set (out_connections (node_heap g ! n)) \<subseteq> set (out_connections (node_heap g' ! n))) \<and>
      length (connections g) \<in> set (out_connections (node_heap g' ! s))"
  using assms
  by (auto simp: add_connection_def Let_def ConnectionGene_def id_of_def type_of_def
      nth_list_update)

lemma add_connection_inv:
  assumes inv: "offspring_inv ni bb no g added"
    and s: "added si = Some s" and d: "added di = Some d"
    and dt: "layout_type ni bb no di \<noteq> BIAS" "layout_type ni bb no di \<noteq> INPUT"
  shows "\<exists>e g'. add_connection g h r s d en (Some cid) (Some w) = (e, g', h, r) \<and>
           (e = None \<or> e = Some ConnectionExistsError) \<and> offspring_inv ni bb no g' added"
proof (cases "connection_exists g s d")
  case True
  with inv show ?thesis by (simp add: add_connection_def)
next
  case False
  note D = offspring_invD [OF inv]
  from D(2) [OF s] have sl: "s < length (node_heap g)" and sid: "id_of g s = si" by simp_all
  from D(2) [OF d] have dl: "d < length (node_heap g)" and did: "id_of g d = di" by simp_all
  from D(5) [OF dl] did dt have ty: "type_of g d \<noteq> BIAS" "type_of g d \<noteq> INPUT" by simp_all
  let ?c = "\<lparr> conn_id = cid, from_node = s, to_node = d, weight = w, enabled = en \<rparr>"
  let ?K = "length (connections g)"
  from add_connection_success [OF False ty sl dl, of h r en cid w] obtain g' where
    ac: "add_connection g h r s d en (Some cid) (Some w) = (None, g', h, r)"
    and conns: "connections g' = connections g @ [?c]"
    and len: "length (node_heap g') = length (node_heap g)"
    and nodes: "\<And>n. n < length (node_heap g) \<Longrightarrow>
         id_of g' n = id_of g n \<and> type_of g' n = type_of g n \<and>
         set (out_connections (node_heap g ! n)) \<subseteq> set (out_connections (node_heap g' ! n))"
    and out: "?K \<in> set (out_connections (node_heap g' ! s))"
    by blast
  have 1: "\<forall>n < length (node_heap g'). added (id_of g' n) = Some n"
    using D(1) nodes len by simp
  have 2: "\<forall>i n. added i = Some n \<longrightarrow> n < length (node_heap g') \<and> id_of g' n = i"
    using D(2) nodes len by auto
  have 3: "\<forall>k < length (connections g').
        from_node (connections g' ! k) < length (node_heap g') \<and>
        to_node (connections g' ! k) < length (node_heap g') \<and>
        k \<in> set (out_connections (node_heap g' ! from_node (connections g' ! k)))"
  proof (intro allI impI)
    fix k assume "k < length (connections g')"
    with conns consider "k < ?K" | "k = ?K" by fastforce
    then show "from_node (connections g' ! k) < length (node_heap g') \<and>
        to_node (connections g' ! k) < length (node_heap g') \<and>
        k \<in> set (out_connections (node_heap g' ! from_node (connections g' ! k)))"
    proof cases
      case 1
      from D(3) [OF 1] nodes [of "from_node (connections g ! k)"] 1 show ?thesis
        by (auto simp: conns len nth_append)
    next
      case 2
      with sl dl out show ?thesis by (simp add: conns len)
    qed
  qed
  have eq: "map (pair_ids g') (connections g) = map (pair_ids g) (connections g)"
    by (rule pair_ids_cong) (use D(3) nodes in auto)
  have new: "pair_ids g' ?c = (si, di)"
    using nodes [OF sl] nodes [OF dl] sid did by (simp add: pair_ids_def)
  have fresh: "(si, di) \<notin> set (map (pair_ids g) (connections g))"
  proof
    assume "(si, di) \<in> set (map (pair_ids g) (connections g))"
    then obtain k where k: "k < ?K" and p: "pair_ids g (connections g ! k) = (si, di)"
      by (auto simp: in_set_conv_nth)
    note Dk = D(3) [OF k]
    from p have fi: "id_of g (from_node (connections g ! k)) = si"
      and ti: "id_of g (to_node (connections g ! k)) = di"
      by (simp_all add: pair_ids_def)
    from D(1) [of "from_node (connections g ! k)"] Dk fi s
    have "from_node (connections g ! k) = s" by simp
    with Dk have "k \<in> set (out_connections (node_heap g ! s))" by simp
    with ti did have "connection_exists g s d"
      by (auto simp: connection_exists_def list_ex_iff)
    with False show False by simp
  qed
  have 4: "no_duplicate_connections g'"
    unfolding no_duplicate_connections_def conns map_append eq
    using D(4) fresh new by (simp add: no_duplicate_connections_def)
  have 5: "\<forall>n < length (node_heap g'). type_of g' n = layout_type ni bb no (id_of g' n)"
    using D(5) nodes len by simp
  from 1 2 3 4 5 D(6) have "offspring_inv ni bb no g' added"
    unfolding offspring_inv_def by blast
  with ac show ?thesis by simp
qed

lemma valid_parent_conn_ok:
  assumes wf: "wf_genome p" and fl: "follows_layout ni bb no p" and c: "c \<in> set (connections p)"
  shows "parent_conn_ok ni bb no p c"
proof -
  from c obtain k where k: "k < length (connections p)" "connections p ! k = c"
    by (auto simp: in_set_conv_nth)
  note W = wf_connection [OF wf k(1)]
  from fl have "\<And>n. n < length (node_heap p) \<Longrightarrow> type_of p n = layout_type ni bb no (id_of p n)"
    by (simp add: follows_layout_def list_all_iff)
  with W k(2) show ?thesis by (simp add: parent_conn_ok_def)
qed

lemma align_slots_members:
  "(a, b) \<in> set (align_slots xs ys) \<Longrightarrow>
   (\<forall>c. a = Some c \<longrightarrow> c \<in> set xs) \<and> (\<forall>c. b = Some c \<longrightarrow> c \<in> set ys)"
  by (induction xs ys rule: align_slots.induct) (auto split: if_splits)

lemma mate_slot_inv:
  assumes inv: "offspring_inv ni bb no g added"
    and p1: "\<forall>c. c1 = Some c \<longrightarrow> parent_conn_ok ni bb no gen1 c"
    and p2: "\<forall>c. c2 = Some c \<longrightarrow> parent_conn_ok ni bb no gen2 c"
  shows "\<exists>g' added' h' r'. mate_slot gen1 gen2 (c1, c2) (g, added, h, r) = Inr (g', added', h', r') \<and>
           offspring_inv ni bb no g' added'"
proof (cases "(c1 = None \<and> adj_fitness gen1 > adj_fitness gen2) \<or>
              (c2 = None \<and> adj_fitness gen2 > adj_fitness gen1)")
  case True
  with inv show ?thesis by (auto simp: mate_slot_def)
next
  case skip: False
  obtain pick r1 where rc: "random_choice 2 r = (pick, r1)" by (cases "random_choice 2 r")
  define chosen where "chosen = (if pick = 0 then (c1, gen1) else (c2, gen2))"
  obtain co parent where ch: "chosen = (co, parent)" by (cases chosen)
  have ms: "mate_slot gen1 gen2 (c1, c2) (g, added, h, r) =
    (case chosen of
       (None, _) \<Rightarrow> Inr (g, added, h, r1)
     | (Some c, parent) \<Rightarrow>
         (case add_hidden parent (to_node c) (add_hidden parent (from_node c) (g, added)) of
            (g', added') \<Rightarrow>
              (case (if disabled_gene c1 \<or> disabled_gene c2
                     then chance (disable_inherited_connection_chance (config gen1)) r1
                     else (False, r1)) of
                 (en, r2) \<Rightarrow>
                   (case added' (id_of parent (from_node c)) of
                      None \<Rightarrow> Inl KeyError
                    | Some src_node \<Rightarrow>
                        (case added' (id_of parent (to_node c)) of
                           None \<Rightarrow> Inl KeyError
                         | Some dest_node \<Rightarrow>
                             (case add_connection g' h r2 src_node dest_node en
                                     (Some (conn_id c)) (Some (weight c)) of
                                (None, g'', h', r') \<Rightarrow> Inr (g'', added', h', r')
                              | (Some ConnectionExistsError, g'', h', r') \<Rightarrow>
                                  Inr (g'', added', h', r')
                              | (Some e, _) \<Rightarrow> Inl e))))))"
    using skip rc by (auto simp: mate_slot_def chosen_def)
  show ?thesis
  proof (cases co)
    case None
    with ms ch inv show ?thesis by simp
  next
    case (Some c)
    have ok: "parent_conn_ok ni bb no parent c"
      using ch Some p1 p2 by (auto simp: chosen_def split: if_splits)
    then have fl: "type_of parent (from_node c) = layout_type ni bb no (id_of parent (from_node c))"
      and tl: "type_of parent (to_node c) = layout_type ni bb no (id_of parent (to_node c))"
      and tt: "type_of parent (to_node c) \<noteq> INPUT" "type_of parent (to_node c) \<noteq> BIAS"
      unfolding parent_conn_ok_def by blast+
    obtain ga aa where a1: "add_hidden parent (from_node c) (g, added) = (ga, aa)"
      by (cases "add_hidden parent (from_node c) (g, added)")
    from add_hidden_inv [OF inv fl] a1
    have inv1: "offspring_inv ni bb no ga aa" and k1: "aa (id_of parent (from_node c)) \<noteq> None"
      by simp_all
    obtain gb ab where a2: "add_hidden parent (to_node c) (ga, aa) = (gb, ab)"
      by (cases "add_hidden parent (to_node c) (ga, aa)")
    from add_hidden_inv [OF inv1 tl] a2
    have inv2: "offspring_inv ni bb no gb ab" and k2: "ab (id_of parent (to_node c)) \<noteq> None"
      and mono: "\<And>i. aa i \<noteq> None \<Longrightarrow> ab i = aa i"
      by simp_all
    from mono [OF k1] k1 obtain s where s: "ab (id_of parent (from_node c)) = Some s" by auto
    from k2 obtain d where d: "ab (id_of parent (to_node c)) = Some d" by auto
    obtain en r2 where er: "(if disabled_gene c1 \<or> disabled_gene c2
                     then chance (disable_inherited_connection_chance (config gen1)) r1
                     else (False, r1)) = (en, r2)"
      by (cases "if disabled_gene c1 \<or> disabled_gene c2
                     then chance (disable_inherited_connection_chance (config gen1)) r1
                     else (False, r1)")
    from tl tt have dt: "layout_type ni bb no (id_of parent (to_node c)) \<noteq> BIAS"
      "layout_type ni bb no (id_of parent (to_node c)) \<noteq> INPUT" by simp_all
    from add_connection_inv [OF inv2 s d dt, of h r2 en "conn_id c" "weight c"]
    obtain e g' where ac: "add_connection gb h r2 s d en (Some (conn_id c)) (Some (weight c)) = (e, g', h, r2)"
      and e: "e = None \<or> e = Some ConnectionExistsError" and inv3: "offspring_inv ni bb no g' ab"
      by blast
    have "mate_slot gen1 gen2 (c1, c2) (g, added, h, r) = Inr (g', ab, h, r2)"
      unfolding ms ch Some using a1 a2 er s d ac e by auto
    with inv3 show ?thesis by blast
  qed
qed

lemma mate_loop_inv:
  assumes p1: "\<forall>c \<in> set (connections gen1). parent_conn_ok ni bb no gen1 c"
    and p2: "\<forall>c \<in> set (connections gen2). parent_conn_ok ni bb no gen2 c"
  shows "offspring_inv ni bb no g added \<Longrightarrow>
         \<forall>(a, b) \<in> set slots. (\<forall>c. a = Some c \<longrightarrow> c \<in> set (connections gen1)) \<and>
                                (\<forall>c. b = Some c \<longrightarrow> c \<in> set (connections gen2)) \<Longrightarrow>
         \<exists>g' added' h' r'. mate_loop gen1 gen2 slots (g, added, h, r) = Inr (g', added', h', r') \<and>
           offspring_inv ni bb no g' added'"
proof (induction slots arbitrary: g added h r)
  case Nil
  then show ?case by simp
next
  case (Cons slot slots)
  obtain c1 c2 where sl: "slot = (c1, c2)" by (cases slot)
  from Cons.prems(2) sl p1 p2 have q1: "\<forall>c. c1 = Some c \<longrightarrow> parent_conn_ok ni bb no gen1 c"
    and q2: "\<forall>c. c2 = Some c \<longrightarrow> parent_conn_ok ni bb no gen2 c" by auto
  from mate_slot_inv [OF Cons.prems(1) q1 q2, of h r] obtain g1 a1 h1 r1 where
    ms: "mate_slot gen1 gen2 (c1, c2) (g, added, h, r) = Inr (g1, a1, h1, r1)"
    and inv1: "offspring_inv ni bb no g1 a1" by blast
  from Cons.prems(2) have rest: "\<forall>(a, b) \<in> set slots.
      (\<forall>c. a = Some c \<longrightarrow> c \<in> set (connections gen1)) \<and>
      (\<forall>c. b = Some c \<longrightarrow> c \<in> set (connections gen2))" by simp
  from Cons.IH [OF inv1 rest, of h1 r1] ms sl show ?case by simp
qed

text \<open>
  Claim C5. For every pair of valid parents, whatever the ID handler and the random
  draws, \<^verbatim>\<open>mate_genomes\<close> returns an offspring (no exception propagates: a
  \<^verbatim>\<open>ConnectionExistsError\<close> raised while inserting an aligned gene is caught and the
  slot is skipped) and the offspring has no two connections with the same (source,
  destination) pair of node identifiers.
\<close>

theorem mate_genomes_no_duplicate_connections:
  assumes v: "valid_parents gen1 gen2"
  shows "\<exists>g h' r'. mate_genomes gen1 gen2 h r = Inr (g, h', r') \<and> no_duplicate_connections g"
proof -
  let ?ni = "length (input_nodes gen1)" and ?no = "length (output_nodes gen1)"
  let ?b = "if bias_value (config gen1) = None then 0 else (1::nat)"
  let ?bb = "bias_value (config gen1) \<noteq> None"
  from v have wf1: "wf_genome gen1" and wf2: "wf_genome gen2"
    and fl1: "follows_layout ?ni ?bb ?no gen1" and fl2: "follows_layout ?ni ?bb ?no gen2"
    by (simp_all add: valid_parents_def)
  from Genome_built [of ?ni ?no h "config gen1" None r] obtain g0 h0 where
    sc: "shallow_copy gen1 h r = Inr (g0, h0, r)" and b: "built ?ni ?b ?no g0"
    by (auto simp: shallow_copy_def)
  have bb: "(?b \<noteq> 0) = ?bb" by simp
  have b1: "?b \<le> 1" by simp
  have inv0: "offspring_inv ?ni ?bb ?no g0 (added_nodes_init g0)"
    using built_offspring_inv [OF b b1] unfolding bb .
  have p1: "\<forall>c \<in> set (connections gen1). parent_conn_ok ?ni ?bb ?no gen1 c"
    using valid_parent_conn_ok [OF wf1 fl1] by blast
  have p2: "\<forall>c \<in> set (connections gen2). parent_conn_ok ?ni ?bb ?no gen2 c"
    using valid_parent_conn_ok [OF wf2 fl2] by blast
  have slots: "\<forall>(a, b) \<in> set (align_slots (connections gen1) (connections gen2)).
      (\<forall>c. a = Some c \<longrightarrow> c \<in> set (connections gen1)) \<and>
      (\<forall>c. b = Some c \<longrightarrow> c \<in> set (connections gen2))"
    using align_slots_members by blast
  from mate_loop_inv [OF p1 p2 inv0 slots, of h0 r] obtain g' added' h' r' where
    ml: "mate_loop gen1 gen2 (align_slots (connections gen1) (connections gen2))
           (g0, added_nodes_init g0, h0, r) = Inr (g', added', h', r')"
    and inv: "offspring_inv ?ni ?bb ?no g' added'" by blast
  from offspring_invD(4) [OF inv] have nd: "no_duplicate_connections g'" .
  from sc ml nd show ?thesis
    by (simp add: mate_genomes_def align_connections_def zip_map_fst_snd)
qed

lemma conflicting_parents_valid:
  "(case conflicting_parents of None \<Rightarrow> False | Some (g1, g2, h, r) \<Rightarrow>
      valid_parents g1 g2 \<and>
      map (pair_ids g1) (connections g1) = [(0, 2)] \<and> map conn_id (connections g1) = [1] \<and>
      map (pair_ids g2) (connections g2) = [(0, 2)] \<and> map conn_id (connections g2) = [2])"
  by (simp add: conflicting_parents_def counting_rng_def reset_def eval_defs valid_parents_def
      wf_genome_def follows_layout_def layout_type_def pair_ids_def atLeastLessThanSuc)

lemma conflicting_parents_offspring:
  "(case conflicting_parents of None \<Rightarrow> False | Some (g1, g2, h, r) \<Rightarrow>
      (case mate_genomes g1 g2 h r of
         Inl e \<Rightarrow> False
       | Inr (g, h', r') \<Rightarrow> map (pair_ids g) (connections g) = [(0, 2)] \<and>
            map conn_id (connections g) = [1]))"
  by (simp add: conflicting_parents_def counting_rng_def reset_def eval_defs pair_ids_def
      mate_genomes_def shallow_copy_def align_connections_def
      added_nodes_init_def mate_slot_def add_hidden_def disabled_gene_def)

theorem mate_genomes_no_duplicate_connections_witness:
  "(case conflicting_parents of None \<Rightarrow> False | Some (g1, g2, h, r) \<Rightarrow>
      valid_parents g1 g2 \<and>
      map (pair_ids g1) (connections g1) = [(0, 2)] \<and> map conn_id (connections g1) = [1] \<and>
      map (pair_ids g2) (connections g2) = [(0, 2)] \<and> map conn_id (connections g2) = [2] \<and>
      (\<exists>g h' r'. mate_genomes g1 g2 h r = Inr (g, h', r') \<and> no_duplicate_connections g \<and>
         map conn_id (connections g) = [1]))"
proof -
  obtain g1 g2 h r where p: "conflicting_parents = Some (g1, g2, h, r)"
    using conflicting_parents_valid by (cases conflicting_parents) auto
  have v: "valid_parents g1 g2"
    and c: "map (pair_ids g1) (connections g1) = [(0, 2)]" "map conn_id (connections g1) = [1]"
      "map (pair_ids g2) (connections g2) = [(0, 2)]" "map conn_id (connections g2) = [2]"
    using conflicting_parents_valid unfolding p option.case prod.case by blast+
  from mate_genomes_no_duplicate_connections [OF v, of h r] obtain g h' r' where
    m: "mate_genomes g1 g2 h r = Inr (g, h', r')" and nd: "no_duplicate_connections g" by blast
  have o: "map conn_id (connections g) = [1]"
    using conflicting_parents_offspring unfolding p option.case prod.case m sum.case by blast
  show ?thesis
    unfolding p option.case prod.case
    by (intro conjI exI) (rule v c m nd o)+
qed

end
